theory Spec2Isabelle
  imports Complex_Main "HOL-Library.Word" "HOL-Library.Sublist"
begin

section \<open>JavaScript strings\<close>

text \<open>
  A JavaScript string is a sequence of UTF-16 code units; \<^verbatim>\<open>length\<close>, \<^verbatim>\<open>slice\<close>,
  \<^verbatim>\<open>indexOf\<close> and the regular expressions of the source (none has the \<^verbatim>\<open>u\<close> flag)
  all count code units. \<open>js\<close> turns an ASCII literal into such a string.
\<close>

type_synonym jschar = "16 word"
type_synonym jsstring = "jschar list"

definition js :: "string \<Rightarrow> jsstring" where
  "js s = map (\<lambda>c. of_nat (of_char c)) s"

text \<open>
  The code units that \<^verbatim>\<open>String.prototype.trim\<close> strips and that \<^verbatim>\<open>\s\<close> matches
  (ECMAScript WhiteSpace and LineTerminator), and the line terminators, which
  \<^verbatim>\<open>.\<close> does not match.
\<close>

definition isWhiteSpace :: "jschar \<Rightarrow> bool" where
  "isWhiteSpace c =
     (c = 0x9 \<or> c = 0xA \<or> c = 0xB \<or> c = 0xC \<or> c = 0xD \<or> c = 0x20 \<or> c = 0xA0
      \<or> c = 0x1680 \<or> (0x2000 \<le> c \<and> c \<le> 0x200A) \<or> c = 0x2028 \<or> c = 0x2029
      \<or> c = 0x202F \<or> c = 0x205F \<or> c = 0x3000 \<or> c = 0xFEFF)"

definition isLineTerminator :: "jschar \<Rightarrow> bool" where
  "isLineTerminator c = (c = 0xA \<or> c = 0xD \<or> c = 0x2028 \<or> c = 0x2029)"

definition trim :: "jsstring \<Rightarrow> jsstring" where
  "trim s = dropWhile isWhiteSpace (rev (dropWhile isWhiteSpace (rev s)))"

text \<open>\<^verbatim>\<open>s.slice(a, b)\<close> for indices \<open>0 \<le> a\<close>, \<open>0 \<le> b\<close>: empty when \<open>b \<le> a\<close>, cut at the end of \<open>s\<close>.\<close>

definition slice :: "jsstring \<Rightarrow> nat \<Rightarrow> nat \<Rightarrow> jsstring" where
  "slice s a b = take (b - a) (drop a s)"

text \<open>
  A global replacement of a two-character pattern, as in \<^verbatim>\<open>text.replace(/\r\n/g, "\n")\<close>:
  scanning from the left, every occurrence of \<open>a\<close> followed by \<open>b\<close> becomes \<open>r\<close>.
\<close>

fun replace_pair :: "jschar \<Rightarrow> jschar \<Rightarrow> jsstring \<Rightarrow> jsstring \<Rightarrow> jsstring" where
  "replace_pair a b r (x # y # cs) =
     (if x = a \<and> y = b then r @ replace_pair a b r cs else x # replace_pair a b r (y # cs))"
| "replace_pair a b r cs = cs"

text \<open>The number of matches of such a pattern, as in \<^verbatim>\<open>(s.match(/\\n/g) ?? []).length\<close>.\<close>

fun count_pair :: "jschar \<Rightarrow> jschar \<Rightarrow> jsstring \<Rightarrow> nat" where
  "count_pair a b (x # y # cs) =
     (if x = a \<and> y = b then Suc (count_pair a b cs) else count_pair a b (y # cs))"
| "count_pair a b cs = 0"

definition replace_crlf :: "jsstring \<Rightarrow> jsstring" where
  "replace_crlf text = replace_pair 0xD 0xA [0xA] text"

text \<open>Characters the source names in its patterns.\<close>

definition dquote :: jschar where "dquote = 0x22"
definition backslash :: jschar where "backslash = 0x5C"
definition newline :: jschar where "newline = 0xA"

definition quoted :: "jsstring \<Rightarrow> jsstring" where
  "quoted s = dquote # s @ [dquote]"

section \<open>Embedding normalizer\<close>

text \<open>
  The RAG library (\<^verbatim>\<open>lib/rag\<close>) and the ingestion script
  (\<^verbatim>\<open>scripts/ingest-docs.mjs\<close>) each carry their own copy of
  \<^verbatim>\<open>normalizeEmbedding\<close>. Both read the target dimension from the same
  environment variable \<^verbatim>\<open>OPENAI_EMBEDDING_TARGET_DIMENSIONS\<close> (default 384); it is the
  parameter \<open>targetDim\<close> here, a dimension count and therefore a natural number.
  Vector components are JavaScript numbers, idealised as reals: the properties below
  are about lengths and about which components are read, not about rounding.

  The padding loop \<^verbatim>\<open>while (padded.length < targetDim) padded.push(0)\<close> is the recursive
  function \<open>pad_loop\<close>; the inner loop that sums one bucket is \<open>bucket_sum\<close>,
  a left fold in the order of the source. In JavaScript \<^verbatim>\<open>sourceDim % 0\<close> is NaN,
  which is not \<^verbatim>\<open>=== 0\<close>; in HOL \<open>n mod 0 = n\<close>, which for \<open>n > 0\<close> is not \<open>0\<close>
  either, so the test reads the same for \<open>targetDim = 0\<close>.
\<close>

function pad_loop :: "nat \<Rightarrow> real list \<Rightarrow> real list" where
  "pad_loop targetDim padded =
     (if length padded < targetDim then pad_loop targetDim (padded @ [0]) else padded)"
  by pat_completeness auto
termination
  by (relation "measure (\<lambda>(targetDim, padded). targetDim - length padded)") auto

declare pad_loop.simps [simp del]

definition bucket_sum :: "real list \<Rightarrow> nat \<Rightarrow> nat \<Rightarrow> real" where
  "bucket_sum embedding ratio i =
     foldl (\<lambda>sum j. sum + embedding ! (i * ratio + j)) 0 [0..<ratio]"

definition normalizeEmbedding :: "nat \<Rightarrow> real list \<Rightarrow> real list" where
  "normalizeEmbedding targetDim embedding =
     (let sourceDim = length embedding in
      if sourceDim = targetDim then embedding
      else if sourceDim > targetDim \<and> sourceDim mod targetDim = 0 then
        (let ratio = sourceDim div targetDim
         in map (\<lambda>i. bucket_sum embedding ratio i / real ratio) [0..<targetDim])
      else if sourceDim > targetDim then take targetDim embedding
      else pad_loop targetDim embedding)"

text \<open>The copy in the ingestion script.\<close>

function pad_loop_ingest :: "nat \<Rightarrow> real list \<Rightarrow> real list" where
  "pad_loop_ingest targetDim padded =
     (if length padded < targetDim then pad_loop_ingest targetDim (padded @ [0]) else padded)"
  by pat_completeness auto
termination
  by (relation "measure (\<lambda>(targetDim, padded). targetDim - length padded)") auto

declare pad_loop_ingest.simps [simp del]

definition bucket_sum_ingest :: "real list \<Rightarrow> nat \<Rightarrow> nat \<Rightarrow> real" where
  "bucket_sum_ingest embedding ratio i =
     foldl (\<lambda>sum j. sum + embedding ! (i * ratio + j)) 0 [0..<ratio]"

definition normalizeEmbedding_ingest :: "nat \<Rightarrow> real list \<Rightarrow> real list" where
  "normalizeEmbedding_ingest targetDim embedding =
     (let sourceDim = length embedding in
      if sourceDim = targetDim then embedding
      else if sourceDim > targetDim \<and> sourceDim mod targetDim = 0 then
        (let ratio = sourceDim div targetDim
         in map (\<lambda>i. bucket_sum_ingest embedding ratio i / real ratio) [0..<targetDim])
      else if sourceDim > targetDim then take targetDim embedding
      else pad_loop_ingest targetDim embedding)"

section \<open>Chunker\<close>

partial_function (option) buildChunks_loop ::
  "jsstring \<Rightarrow> nat \<Rightarrow> nat \<Rightarrow> nat \<Rightarrow> jsstring list \<Rightarrow> jsstring list option"
where
  "buildChunks_loop cleaned chunkSize overlap start chunks =
     (if start < length cleaned then
        (let end = min (start + chunkSize) (length cleaned);
             chunks' = chunks @ [slice cleaned start end]
         in if end \<ge> length cleaned then Some chunks'
            else buildChunks_loop cleaned chunkSize overlap
                   (nat (max 0 (int end - int overlap))) chunks')
      else Some chunks)"

definition buildChunks :: "jsstring \<Rightarrow> nat \<Rightarrow> nat \<Rightarrow> jsstring list option" where
  "buildChunks text chunkSize overlap =
     (let cleaned = trim (replace_crlf text)
      in if cleaned = [] then Some [] else buildChunks_loop cleaned chunkSize overlap 0 [])"

definition buildChunks_ingest :: "nat \<Rightarrow> nat \<Rightarrow> jsstring \<Rightarrow> jsstring list option" where
  "buildChunks_ingest CHUNK_SIZE CHUNK_OVERLAP text =
     (let cleaned = trim (replace_crlf text)
      in if cleaned = [] then Some [] else buildChunks_loop cleaned CHUNK_SIZE CHUNK_OVERLAP 0 [])"

section \<open>JavaScript numbers, JSON values and errors\<close>

text \<open>
  A JavaScript number is a finite double, NaN or an infinity. Every finite double is a
  rational number; the code below only compares numbers, tests them for being integers
  and subtracts small integers, so finite numbers are modelled as rationals (\<open>+0\<close> and
  \<open>-0\<close> are one value, as they are for \<^verbatim>\<open>===\<close>, for \<^verbatim>\<open>Set\<close> membership and for
  every comparison used here).
\<close>

datatype jsnum = Finite rat | NaN | PosInfinity | NegInfinity

fun num_less :: "jsnum \<Rightarrow> jsnum \<Rightarrow> bool" where
  "num_less (Finite a) (Finite b) = (a < b)"
| "num_less (Finite a) PosInfinity = True"
| "num_less NegInfinity (Finite b) = True"
| "num_less NegInfinity PosInfinity = True"
| "num_less a b = False"

text \<open>\<^verbatim>\<open>a <= b\<close> is false when either side is NaN, and otherwise means that \<^verbatim>\<open>b < a\<close> is false.\<close>

definition num_le :: "jsnum \<Rightarrow> jsnum \<Rightarrow> bool" where
  "num_le a b = (a \<noteq> NaN \<and> b \<noteq> NaN \<and> \<not> num_less b a)"

fun num_minus :: "jsnum \<Rightarrow> jsnum \<Rightarrow> jsnum" where
  "num_minus (Finite a) (Finite b) = Finite (a - b)"
| "num_minus NaN b = NaN"
| "num_minus a NaN = NaN"
| "num_minus PosInfinity PosInfinity = NaN"
| "num_minus NegInfinity NegInfinity = NaN"
| "num_minus PosInfinity b = PosInfinity"
| "num_minus NegInfinity b = NegInfinity"
| "num_minus (Finite a) PosInfinity = NegInfinity"
| "num_minus (Finite a) NegInfinity = PosInfinity"

definition Number_isInteger :: "jsnum \<Rightarrow> bool" where
  "Number_isInteger n = (case n of Finite q \<Rightarrow> of_int \<lfloor>q\<rfloor> = q | _ \<Rightarrow> False)"

text \<open>
  A JSON value, as \<^verbatim>\<open>JSON.parse\<close> returns it and as a \<^verbatim>\<open>jsonb\<close> column holds it. An
  object is the list of its own properties, each name once; \<open>get_prop\<close> reads one (\<open>None\<close> is
  \<^verbatim>\<open>undefined\<close>). Reading a property of a string, number, boolean or array under one of
  the names used in the source gives \<^verbatim>\<open>undefined\<close>; reading a property of \<^verbatim>\<open>null\<close>
  throws a TypeError, which each caller below handles where the source does.
\<close>

datatype json =
  JNull | JBool bool | JNum jsnum | JStr jsstring | JArr "json list"
  | JObj "(jsstring \<times> json) list"

fun get_prop :: "json \<Rightarrow> jsstring \<Rightarrow> json option" where
  "get_prop (JObj kvs) k = map_of kvs k"
| "get_prop v k = None"

datatype js_error = TypeError | SyntaxError | Error jsstring

text \<open>
  \<^verbatim>\<open>JSON.parse\<close>, \<^verbatim>\<open>JSON.stringify\<close> and the conversion of a number to a string
  (\<^verbatim>\<open>String(n)\<close> and template literals) are built into the language, not code of this
  repository: the functions that call them take them as the parameters \<open>JSON_parse\<close>
  (\<open>None\<close> when it throws a SyntaxError), \<open>JSON_stringify\<close> and \<open>String\<close>.
\<close>

type_synonym json_parser = "jsstring \<Rightarrow> json option"
type_synonym json_printer = "json \<Rightarrow> jsstring"
type_synonym num_printer = "jsnum \<Rightarrow> jsstring"

text \<open>\<^verbatim>\<open>indexOf\<close> and \<^verbatim>\<open>lastIndexOf\<close>, with \<open>None\<close> for \<open>-1\<close>.\<close>

fun indexOf :: "jsstring \<Rightarrow> jsstring \<Rightarrow> nat option" where
  "indexOf [] pat = (if pat = [] then Some 0 else None)"
| "indexOf (c # cs) pat =
     (if prefix pat (c # cs) then Some 0 else map_option Suc (indexOf cs pat))"

definition indexOf_from :: "jsstring \<Rightarrow> jsstring \<Rightarrow> nat \<Rightarrow> nat option" where
  "indexOf_from s pat position = map_option (\<lambda>i. i + position) (indexOf (drop position s) pat)"

fun lastIndexOf_char :: "jsstring \<Rightarrow> jschar \<Rightarrow> nat option" where
  "lastIndexOf_char [] ch = None"
| "lastIndexOf_char (c # cs) ch =
     (case lastIndexOf_char cs ch of
        Some i \<Rightarrow> Some (Suc i)
      | None \<Rightarrow> if c = ch then Some 0 else None)"

text \<open>
  For the examples, a number printer that agrees with \<^verbatim>\<open>String(n)\<close> on NaN, on the
  infinities and on the integers of at most 21 digits (no example prints another number).
\<close>

function decimal :: "nat \<Rightarrow> jsstring" where
  "decimal n = (if n < 10 then [of_nat (48 + n)] else decimal (n div 10) @ [of_nat (48 + n mod 10)])"
  by pat_completeness auto
termination
  by (relation "measure (\<lambda>n. n)") auto

declare decimal.simps [simp del]

definition String_of_integer :: num_printer where
  "String_of_integer n =
     (case n of
        Finite q \<Rightarrow> if 0 \<le> q then decimal (nat \<lfloor>q\<rfloor>) else js ''-'' @ decimal (nat \<lfloor>- q\<rfloor>)
      | NaN \<Rightarrow> js ''NaN''
      | PosInfinity \<Rightarrow> js ''Infinity''
      | NegInfinity \<Rightarrow> js ''-Infinity'')"

section \<open>Retrieval: deduplication, fan-in and source fragments\<close>

text \<open>
  A retrieved chunk. \<^verbatim>\<open>dedupeChunks\<close> is generic in a type with an optional
  \<^verbatim>\<open>id\<close>, a \<^verbatim>\<open>source\<close> and a \<^verbatim>\<open>metadata\<close> that is an object or \<^verbatim>\<open>null\<close>;
  \<open>chunk_id = None\<close> is an absent (or \<^verbatim>\<open>null\<close>) id, \<open>metadata = None\<close> is \<^verbatim>\<open>null\<close>.
\<close>

record RetrievedChunk =
  chunk_id :: "jsstring option"
  content :: jsstring
  source :: jsstring
  metadata :: "(jsstring \<times> json) list option"
  similarity :: jsnum

text \<open>\<^verbatim>\<open>chunk.metadata?.name\<close>: \<^verbatim>\<open>undefined\<close> when the metadata is \<^verbatim>\<open>null\<close>.\<close>

definition metadata_prop :: "RetrievedChunk \<Rightarrow> jsstring \<Rightarrow> json option" where
  "metadata_prop chunk name = (case metadata chunk of None \<Rightarrow> None | Some kvs \<Rightarrow> map_of kvs name)"

definition chunk_key :: "num_printer \<Rightarrow> RetrievedChunk \<Rightarrow> jsstring" where
  "chunk_key String chunk =
     (let chunkIndex =
            (case metadata_prop chunk (js ''chunk_index'') of
               Some (JNum n) \<Rightarrow> String n
             | Some (JStr s) \<Rightarrow> s
             | _ \<Rightarrow> js ''na'')
      in case chunk_id chunk of
           Some i \<Rightarrow> i
         | None \<Rightarrow> source chunk @ js '':'' @ chunkIndex)"

fun dedupe_loop ::
  "num_printer \<Rightarrow> jsstring set \<Rightarrow> RetrievedChunk list \<Rightarrow> RetrievedChunk list \<Rightarrow> RetrievedChunk list"
where
  "dedupe_loop String seen output [] = output"
| "dedupe_loop String seen output (chunk # chunks) =
     (let key = chunk_key String chunk
      in if key \<in> seen then dedupe_loop String seen output chunks
         else dedupe_loop String (insert key seen) (output @ [chunk]) chunks)"

definition dedupeChunks :: "num_printer \<Rightarrow> RetrievedChunk list \<Rightarrow> RetrievedChunk list" where
  "dedupeChunks String chunks = dedupe_loop String {} [] chunks"

text \<open>
  The identity key as the specification words it: the id when present, otherwise
  \<^verbatim>\<open>source:chunk_index\<close>, with \<^verbatim>\<open>na\<close> when the \<^verbatim>\<open>chunk_index\<close> entry is absent or not a
  number.
\<close>

definition spec_identity_key :: "num_printer \<Rightarrow> RetrievedChunk \<Rightarrow> jsstring" where
  "spec_identity_key String chunk =
     (case chunk_id chunk of
        Some i \<Rightarrow> i
      | None \<Rightarrow>
          source chunk @ js '':'' @
            (case metadata_prop chunk (js ''chunk_index'') of
               Some (JNum n) \<Rightarrow> String n
             | _ \<Rightarrow> js ''na''))"

text \<open>A chunk for the examples: an optional id, a source and an optional \<^verbatim>\<open>chunk_index\<close> entry.\<close>

definition example_chunk :: "jsstring option \<Rightarrow> jsstring \<Rightarrow> json option \<Rightarrow> RetrievedChunk" where
  "example_chunk i src idx =
     \<lparr> chunk_id = i, content = js ''text'', source = src,
       metadata = (case idx of None \<Rightarrow> None | Some v \<Rightarrow> Some [(js ''chunk_index'', v)]),
       similarity = Finite 0 \<rparr>"

text \<open>
  The retrieval step of the request handler. Each query's call of
  \<^verbatim>\<open>searchRelevantChunks\<close> ends with its rows or with a thrown error; \<open>outcomes\<close> lists
  these results in the order of the queries. \<^verbatim>\<open>Promise.all\<close> is fulfilled with all the
  rows when every call is, and is rejected as soon as one call is rejected (with that
  call's error, which the handler only logs; the model takes the first in query order).
  The handler's \<^verbatim>\<open>catch\<close> leaves \<^verbatim>\<open>contextChunks\<close> at its initial value, the empty
  list. The result is the context and the logged error, if any.
\<close>

fun Promise_all :: "('e + 'a) list \<Rightarrow> 'e + 'a list" where
  "Promise_all [] = Inr []"
| "Promise_all (Inl e # rs) = Inl e"
| "Promise_all (Inr v # rs) = (case Promise_all rs of Inl e \<Rightarrow> Inl e | Inr vs \<Rightarrow> Inr (v # vs))"

definition retrieve_context ::
  "num_printer \<Rightarrow> (js_error + RetrievedChunk list) list \<Rightarrow> RetrievedChunk list \<times> js_error option"
where
  "retrieve_context String outcomes =
     (case Promise_all outcomes of
        Inr ragResults \<Rightarrow> (dedupeChunks String (concat ragResults), None)
      | Inl error \<Rightarrow> ([], Some error))"

text \<open>
  What the specification describes instead: a failed query counts as an empty result
  for that query only.
\<close>

definition spec_partial_context ::
  "num_printer \<Rightarrow> (js_error + RetrievedChunk list) list \<Rightarrow> RetrievedChunk list"
where
  "spec_partial_context String outcomes =
     dedupeChunks String (concat (map (\<lambda>r. case r of Inl e \<Rightarrow> [] | Inr rows \<Rightarrow> rows) outcomes))"

subsection \<open>Source fragments\<close>

record SourceFragment =
  title :: jsstring
  url :: "jsstring option"
  excerpt :: jsstring

text \<open>\<^verbatim>\<open>[...new Set(xs)]\<close>: the elements in the order of their first occurrence.\<close>

fun Set_spread :: "'a list \<Rightarrow> 'a list \<Rightarrow> 'a list" where
  "Set_spread seen [] = seen"
| "Set_spread seen (x # xs) =
     (if x \<in> set seen then Set_spread seen xs else Set_spread (seen @ [x]) xs)"

text \<open>
  \<^verbatim>\<open>Array.prototype.sort\<close> with a comparison function, as a stable insertion sort:
  \<open>x\<close> goes behind \<open>y\<close> exactly when \<open>compare x y > 0\<close>.
\<close>

fun insert_sorted :: "('a \<Rightarrow> 'a \<Rightarrow> jsnum) \<Rightarrow> 'a \<Rightarrow> 'a list \<Rightarrow> 'a list" where
  "insert_sorted compare x [] = [x]"
| "insert_sorted compare x (y # ys) =
     (if num_less (Finite 0) (compare x y) then y # insert_sorted compare x ys else x # y # ys)"

definition Array_sort :: "('a \<Rightarrow> 'a \<Rightarrow> jsnum) \<Rightarrow> 'a list \<Rightarrow> 'a list" where
  "Array_sort compare xs = foldr (insert_sorted compare) xs []"

definition normalizedNumbers :: "RetrievedChunk list \<Rightarrow> jsnum list \<Rightarrow> jsnum list" where
  "normalizedNumbers chunks usedSourceNumbers =
     Array_sort (\<lambda>a b. num_minus a b)
       (filter (\<lambda>n. Number_isInteger n \<and> num_less (Finite 0) n
                     \<and> num_le n (Finite (of_nat (length chunks))))
          (Set_spread [] usedSourceNumbers))"

text \<open>
  \<^verbatim>\<open>chunks[sourceNumber - 1]\<close> is \<^verbatim>\<open>undefined\<close> unless the index is an integer from \<open>0\<close>
  up to the length; reading \<^verbatim>\<open>chunk.metadata\<close> of \<^verbatim>\<open>undefined\<close> throws a TypeError.
\<close>

definition array_get :: "'a list \<Rightarrow> jsnum \<Rightarrow> 'a option" where
  "array_get xs n =
     (case n of
        Finite q \<Rightarrow>
          if of_int \<lfloor>q\<rfloor> = q \<and> 0 \<le> q \<and> nat \<lfloor>q\<rfloor> < length xs then Some (xs ! nat \<lfloor>q\<rfloor>) else None
      | _ \<Rightarrow> None)"

definition metadata_trimmed :: "RetrievedChunk \<Rightarrow> jsstring \<Rightarrow> jsstring option" where
  "metadata_trimmed chunk name =
     (case metadata_prop chunk name of
        Some (JStr s) \<Rightarrow> if length (trim s) > 0 then Some (trim s) else None
      | _ \<Rightarrow> None)"

definition make_fragment :: "num_printer \<Rightarrow> jsnum \<Rightarrow> RetrievedChunk \<Rightarrow> SourceFragment" where
  "make_fragment String sourceNumber chunk =
     (let sourceUrl = metadata_trimmed chunk (js ''source_url'');
          sourceTitle = (case metadata_trimmed chunk (js ''source_title'') of
                           Some t \<Rightarrow> t | None \<Rightarrow> source chunk)
      in \<lparr> title = js ''['' @ String sourceNumber @ js ''] '' @ sourceTitle,
           url = sourceUrl,
           excerpt = trim (content chunk) \<rparr>)"

fun map_throwing :: "('a \<Rightarrow> js_error + 'b) \<Rightarrow> 'a list \<Rightarrow> js_error + 'b list" where
  "map_throwing f [] = Inr []"
| "map_throwing f (x # xs) =
     (case f x of
        Inl e \<Rightarrow> Inl e
      | Inr y \<Rightarrow> (case map_throwing f xs of Inl e \<Rightarrow> Inl e | Inr ys \<Rightarrow> Inr (y # ys)))"

definition getSourceFragmentsByNumber ::
  "num_printer \<Rightarrow> RetrievedChunk list \<Rightarrow> jsnum list \<Rightarrow> js_error + SourceFragment list"
where
  "getSourceFragmentsByNumber String chunks usedSourceNumbers =
     map_throwing
       (\<lambda>sourceNumber.
          case array_get chunks (num_minus sourceNumber (Finite 1)) of
            None \<Rightarrow> Inl TypeError
          | Some chunk \<Rightarrow> Inr (make_fragment String sourceNumber chunk))
       (normalizedNumbers chunks usedSourceNumbers)"

section \<open>Locating a JSON object in model output\<close>

text \<open>
  Matching with the \<^verbatim>\<open>i\<close> flag (and no \<^verbatim>\<open>u\<close> flag) compares code units after
  \<^verbatim>\<open>toUpperCase\<close>, except that a code unit of 128 or more is never taken to an ASCII
  one. The patterns of the source are ASCII, so a text matches such a pattern
  exactly when the two agree after the ASCII letters are put in upper case.
\<close>

definition toUpperAscii :: "jschar \<Rightarrow> jschar" where
  "toUpperAscii c = (if 0x61 \<le> c \<and> c \<le> 0x7A then c - 0x20 else c)"

definition prefix_ci :: "jsstring \<Rightarrow> jsstring \<Rightarrow> bool" where
  "prefix_ci pat s = prefix (map toUpperAscii pat) (map toUpperAscii s)"

text \<open>
  \<^verbatim>\<open>text.match(/```json\s*([\s\S]*?)\s*```/i)\<close>. \<open>lazy_to_fence\<close> is the lazy group
  followed by \<^verbatim>\<open>\s*```\<close>: the shortest prefix after which only white space separates
  from a closing fence. \<open>fenced_json\<close> tries the start positions from the left and
  returns the group of the first match.
\<close>

definition fence :: jsstring where
  "fence = js ''```''"

fun lazy_to_fence :: "jsstring \<Rightarrow> jsstring option" where
  "lazy_to_fence [] = None"
| "lazy_to_fence (c # cs) =
     (if prefix fence (dropWhile isWhiteSpace (c # cs)) then Some []
      else map_option ((#) c) (lazy_to_fence cs))"

fun fenced_json :: "jsstring \<Rightarrow> jsstring option" where
  "fenced_json [] = None"
| "fenced_json (c # cs) =
     (if prefix_ci (js ''```json'') (c # cs) then
        (case lazy_to_fence (dropWhile isWhiteSpace (drop 7 (c # cs))) of
           Some captured \<Rightarrow> Some captured
         | None \<Rightarrow> fenced_json cs)
      else fenced_json cs)"

definition extractJsonObject :: "jsstring \<Rightarrow> jsstring option" where
  "extractJsonObject text =
     (let braces =
            (case (indexOf text (js ''{''), lastIndexOf_char text 0x7D) of
               (Some start, Some end) \<Rightarrow>
                 if end > start then Some (slice text start (end + 1)) else None
             | _ \<Rightarrow> None)
      in case fenced_json text of
           Some captured \<Rightarrow> if captured \<noteq> [] then Some captured else braces
         | None \<Rightarrow> braces)"

section \<open>Planner output\<close>

record PlannerOutput =
  needsCode :: bool
  isHard :: bool
  needsConversationContext :: bool
  ragQueries :: "jsstring list"
  shouldShortCircuit :: bool
  directResponse :: jsstring

text \<open>The object literal that \<^verbatim>\<open>parsePlannerOutput\<close> returns in both of its failure branches.\<close>

definition fallback_plan :: "jsstring \<Rightarrow> PlannerOutput" where
  "fallback_plan fallbackQuestion =
     \<lparr> needsCode = True, isHard = True, needsConversationContext = True,
       ragQueries = [fallbackQuestion], shouldShortCircuit = False, directResponse = [] \<rparr>"

text \<open>\<^verbatim>\<open>typeof v === "boolean" ? v : dflt\<close>, for a property that may be \<^verbatim>\<open>undefined\<close>.\<close>

definition boolean_or :: "json option \<Rightarrow> bool \<Rightarrow> bool" where
  "boolean_or v dflt = (case v of Some (JBool b) \<Rightarrow> b | _ \<Rightarrow> dflt)"

text \<open>The strings of an array that are not blank.\<close>

fun nonblank_strings :: "json list \<Rightarrow> jsstring list" where
  "nonblank_strings [] = []"
| "nonblank_strings (JStr q # qs) =
     (if length (trim q) > 0 then q # nonblank_strings qs else nonblank_strings qs)"
| "nonblank_strings (v # qs) = nonblank_strings qs"

text \<open>
  \<^verbatim>\<open>parsePlannerOutput\<close>. The \<^verbatim>\<open>try\<close> block holds \<^verbatim>\<open>JSON.parse\<close> and the property
  reads; it is left through \<^verbatim>\<open>catch\<close> when the text is not JSON, and also when the text
  is the JSON \<^verbatim>\<open>null\<close>, whose first property read throws.
\<close>

definition parsePlannerOutput :: "json_parser \<Rightarrow> jsstring \<Rightarrow> jsstring \<Rightarrow> PlannerOutput" where
  "parsePlannerOutput JSON_parse raw fallbackQuestion =
     (case extractJsonObject raw of
        None \<Rightarrow> fallback_plan fallbackQuestion
      | Some jsonText \<Rightarrow>
          if jsonText = [] then fallback_plan fallbackQuestion
          else
            (case JSON_parse jsonText of
               None \<Rightarrow> fallback_plan fallbackQuestion
             | Some JNull \<Rightarrow> fallback_plan fallbackQuestion
             | Some parsed \<Rightarrow>
                 (let ragQueries =
                        (case get_prop parsed (js ''ragQueries'') of
                           Some (JArr qs) \<Rightarrow> nonblank_strings qs
                         | _ \<Rightarrow> []);
                      needsCode = boolean_or (get_prop parsed (js ''needsCode'')) True;
                      isHard = boolean_or (get_prop parsed (js ''isHard'')) True;
                      needsConversationContext =
                        boolean_or (get_prop parsed (js ''needsConversationContext'')) True;
                      shouldShortCircuit =
                        boolean_or (get_prop parsed (js ''shouldShortCircuit'')) False;
                      directResponse =
                        (case get_prop parsed (js ''directResponse'') of
                           Some (JStr s) \<Rightarrow> trim s
                         | _ \<Rightarrow> [])
                  in \<lparr> needsCode = needsCode, isHard = isHard,
                       needsConversationContext = needsConversationContext,
                       ragQueries = (if length ragQueries > 0 then ragQueries else [fallbackQuestion]),
                       shouldShortCircuit = shouldShortCircuit,
                       directResponse = directResponse \<rparr>)))"

text \<open>
  For the examples: the value of \<^verbatim>\<open>JSON.parse\<close> at the planner texts used below, which are
  \<^verbatim>\<open>{"needsCode":false}\<close> and \<^verbatim>\<open>null\<close>; every other text of the examples is not JSON.
\<close>

definition planner_text_partial :: jsstring where
  "planner_text_partial = js ''{'' @ quoted (js ''needsCode'') @ js '':false}''"

definition example_planner_parse :: json_parser where
  "example_planner_parse t =
     (if t = planner_text_partial then Some (JObj [(js ''needsCode'', JBool False)])
      else if t = js ''null'' then Some JNull
      else None)"

section \<open>Generation: truncation retry, parsing, repair and fallback\<close>

record GeminiRequest =
  model :: jsstring
  systemInstruction :: jsstring
  userPrompt :: jsstring
  temperature :: rat
  maxOutputTokens :: nat
  responseMimeType :: "jsstring option"

record GeminiTextResult =
  result_text :: jsstring
  finishReason :: "jsstring option"

text \<open>
  The generation provider is outside the program: a call of
  \<^verbatim>\<open>generateGeminiTextWithMeta\<close> takes the request and the state \<open>'w\<close> of the world, and
  returns either a thrown error or a result, with the new state.
\<close>

type_synonym 'w backend = "GeminiRequest \<Rightarrow> 'w \<Rightarrow> (js_error + GeminiTextResult) \<times> 'w"

definition join_lines :: "jsstring list \<Rightarrow> jsstring" where
  "join_lines ls = (case ls of [] \<Rightarrow> [] | l # rest \<Rightarrow> l @ concat (map (\<lambda>x. newline # x) rest))"

text \<open>
  The first call for the final answer and the retry. The result holds the text that
  goes on to parsing (or the error that ends the request), the requests that were issued,
  in order, and the state of the world.
\<close>

definition final_generation ::
  "'w backend \<Rightarrow> jsstring \<Rightarrow> jsstring \<Rightarrow> jsstring \<Rightarrow> nat \<Rightarrow> 'w
     \<Rightarrow> (js_error + jsstring) \<times> GeminiRequest list \<times> 'w"
where
  "final_generation generateGeminiTextWithMeta finalModel finalModelSystemInstruction
       finalModelUserPrompt finalModelMaxOutputTokens w =
     (let first =
            \<lparr> model = finalModel,
              systemInstruction = finalModelSystemInstruction,
              userPrompt = finalModelUserPrompt,
              temperature = 2 / 10,
              maxOutputTokens = finalModelMaxOutputTokens,
              responseMimeType = Some (js ''application/json'') \<rparr>
      in case generateGeminiTextWithMeta first w of
           (Inl error, w1) \<Rightarrow> (Inl error, [first], w1)
         | (Inr finalAnswerResult, w1) \<Rightarrow>
             if finishReason finalAnswerResult = Some (js ''MAX_TOKENS'') then
               (let retry =
                      \<lparr> model = finalModel,
                        systemInstruction =
                          finalModelSystemInstruction @ [newline, newline]
                            @ js ''Your previous attempt was cut off. Return a complete JSON object in one response.'',
                        userPrompt = finalModelUserPrompt,
                        temperature = 2 / 10,
                        maxOutputTokens = max finalModelMaxOutputTokens 4096,
                        responseMimeType = Some (js ''application/json'') \<rparr>
                in case generateGeminiTextWithMeta retry w1 of
                     (Inl error, w2) \<Rightarrow> (Inl error, [first, retry], w2)
                   | (Inr secondResult, w2) \<Rightarrow> (Inr (result_text secondResult), [first, retry], w2))
             else (Inr (result_text finalAnswerResult), [first], w1))"

subsection \<open>Parsing the final output\<close>

record ParsedFinalModelOutput =
  answer :: jsstring
  usedSourceNumbers :: "jsnum list"
  ok :: bool

definition parse_failed :: ParsedFinalModelOutput where
  "parse_failed = \<lparr> answer = [], usedSourceNumbers = [], ok = False \<rparr>"

fun numbers_of :: "json list \<Rightarrow> jsnum list" where
  "numbers_of [] = []"
| "numbers_of (JNum n # vs) = n # numbers_of vs"
| "numbers_of (v # vs) = numbers_of vs"

definition parseFinalModelOutput :: "json_parser \<Rightarrow> jsstring \<Rightarrow> ParsedFinalModelOutput" where
  "parseFinalModelOutput JSON_parse raw =
     (case extractJsonObject raw of
        None \<Rightarrow> parse_failed
      | Some jsonText \<Rightarrow>
          if jsonText = [] then parse_failed
          else
            (case JSON_parse jsonText of
               None \<Rightarrow> parse_failed
             | Some JNull \<Rightarrow> parse_failed
             | Some parsed \<Rightarrow>
                 (let answer =
                        (case get_prop parsed (js ''answer'') of
                           Some (JStr s) \<Rightarrow> trim s
                         | _ \<Rightarrow> []);
                      usedSourceNumbers =
                        (case get_prop parsed (js ''usedSourceNumbers'') of
                           Some (JArr ns) \<Rightarrow> numbers_of ns
                         | _ \<Rightarrow> [])
                  in \<lparr> answer = answer, usedSourceNumbers = usedSourceNumbers,
                       ok = (length answer > 0) \<rparr>)))"

subsection \<open>The fallback text\<close>

text \<open>
  \<^verbatim>\<open>raw.match(/"answer"\s*:\s*"([\s\S]*?)"(?:\s*,|\s*})/)\<close>. \<open>lazy_to_closing_quote\<close> is
  the lazy group and what follows it: the shortest prefix that ends before a double
  quote after which only white space separates from a comma or a closing brace.
  \<open>answer_here\<close> matches the whole pattern at the start of a text, \<open>answer_match\<close>
  tries the start positions from the left; both return the group.
\<close>

fun lazy_to_closing_quote :: "jsstring \<Rightarrow> jsstring option" where
  "lazy_to_closing_quote [] = None"
| "lazy_to_closing_quote (c # cs) =
     (if c = dquote
         \<and> (case dropWhile isWhiteSpace cs of d # rest \<Rightarrow> d = 0x2C \<or> d = 0x7D | [] \<Rightarrow> False)
      then Some []
      else map_option ((#) c) (lazy_to_closing_quote cs))"

definition answer_here :: "jsstring \<Rightarrow> jsstring option" where
  "answer_here s =
     (if prefix (quoted (js ''answer'')) s then
        (case dropWhile isWhiteSpace (drop 8 s) of
           c # afterColon \<Rightarrow>
             if c = 0x3A then
               (case dropWhile isWhiteSpace afterColon of
                  q # body \<Rightarrow> if q = dquote then lazy_to_closing_quote body else None
                | [] \<Rightarrow> None)
             else None
         | [] \<Rightarrow> None)
      else None)"

fun answer_match :: "jsstring \<Rightarrow> jsstring option" where
  "answer_match [] = None"
| "answer_match (c # cs) =
     (case answer_here (c # cs) of Some captured \<Rightarrow> Some captured | None \<Rightarrow> answer_match cs)"

text \<open>
  \<^verbatim>\<open>raw.replace(/^[\s`]*\{?[\s\S]*?"answer"\s*:\s*/i, "")\<close>: the pattern is anchored at the
  start and everything before the key can be taken by its lazy middle part, so it
  matches up to the first place where \<^verbatim>\<open>"answer"\<close> (in any case), white space and a
  colon stand, and the white space after the colon; \<open>after_answer_key\<close> is the rest of
  the text behind that match, \<open>None\<close> when there is no match.
\<close>

fun after_answer_key :: "jsstring \<Rightarrow> jsstring option" where
  "after_answer_key [] = None"
| "after_answer_key (c # cs) =
     (if prefix_ci (quoted (js ''answer'')) (c # cs) then
        (case dropWhile isWhiteSpace (drop 8 (c # cs)) of
           d # afterColon \<Rightarrow>
             if d = 0x3A then Some (dropWhile isWhiteSpace afterColon) else after_answer_key cs
         | [] \<Rightarrow> after_answer_key cs)
      else after_answer_key cs)"

text \<open>\<^verbatim>\<open>s.replace(/"usedSourceNumbers"[\s\S]*$/i, "")\<close>: the text before the first occurrence of the key.\<close>

fun before_used_key :: "jsstring \<Rightarrow> jsstring" where
  "before_used_key [] = []"
| "before_used_key (c # cs) =
     (if prefix_ci (quoted (js ''usedSourceNumbers'')) (c # cs) then [] else c # before_used_key cs)"

text \<open>The characters of the class \<^verbatim>\<open>[{}[\]"]\<close>.\<close>

definition isJsonPunctuation :: "jschar \<Rightarrow> bool" where
  "isJsonPunctuation c = (c = 0x7B \<or> c = 0x7D \<or> c = 0x5B \<or> c = 0x5D \<or> c = dquote)"

definition stripped_text :: "jsstring \<Rightarrow> jsstring" where
  "stripped_text raw =
     trim (filter (\<lambda>c. \<not> isJsonPunctuation c)
       (before_used_key (case after_answer_key raw of Some rest \<Rightarrow> rest | None \<Rightarrow> raw)))"

definition unescaped :: "jsstring \<Rightarrow> jsstring" where
  "unescaped s =
     trim (replace_pair backslash 0x6E [newline] (replace_pair backslash dquote [dquote] s))"

definition extractAnswerFallbackText :: "jsstring \<Rightarrow> jsstring" where
  "extractAnswerFallbackText raw =
     (case answer_match raw of
        Some captured \<Rightarrow> if captured \<noteq> [] then unescaped captured else stripped_text raw
      | None \<Rightarrow> stripped_text raw)"

subsection \<open>Repair and the visible answer\<close>

text \<open>\<^verbatim>\<open>a || b\<close> on strings: \<open>a\<close> unless it is empty.\<close>

definition or_else :: "jsstring \<Rightarrow> jsstring \<Rightarrow> jsstring" where
  "or_else a b = (if a \<noteq> [] then a else b)"

definition apology :: jsstring where
  "apology = js ''I'' @ [0x2019] @ js ''m sorry, I couldn'' @ [0x2019]
               @ js ''t generate a complete answer.''"

definition repair_request :: "jsstring \<Rightarrow> jsstring \<Rightarrow> GeminiRequest" where
  "repair_request finalModel finalAnswer =
     \<lparr> model = finalModel,
       systemInstruction =
         join_lines
           [js ''You are a strict JSON formatter.'',
            js ''Given malformed model output, return only valid JSON with this exact schema:'',
            js ''{ '' @ quoted (js ''answer'') @ js '': string, '' @ quoted (js ''usedSourceNumbers'')
              @ js '': number[] }'',
            js ''Do not add commentary.''],
       userPrompt = js ''Malformed output:'' @ [newline] @ finalAnswer,
       temperature = 0,
       maxOutputTokens = 800,
       responseMimeType = Some (js ''application/json'') \<rparr>"

text \<open>
  From the text of the final model to the visible answer: parse, call the repair
  model when the parse is not ok (an error thrown by that call is caught and ignored),
  and choose the visible answer. The result is the visible answer, the parse that
  \<^verbatim>\<open>parsedFinal\<close> holds at the end, and the state of the world.
\<close>

definition answer_stage ::
  "json_parser \<Rightarrow> 'w backend \<Rightarrow> jsstring \<Rightarrow> jsstring \<Rightarrow> 'w
     \<Rightarrow> jsstring \<times> ParsedFinalModelOutput \<times> 'w"
where
  "answer_stage JSON_parse generateGeminiTextWithMeta finalModel finalAnswer w =
     (let parsedFinal = parseFinalModelOutput JSON_parse finalAnswer;
          (parsedFinal, w) =
            (if \<not> ok parsedFinal then
               (case generateGeminiTextWithMeta (repair_request finalModel finalAnswer) w of
                  (Inr repaired, w') \<Rightarrow> (parseFinalModelOutput JSON_parse (result_text repaired), w')
                | (Inl error, w') \<Rightarrow> (parsedFinal, w'))
             else (parsedFinal, w));
          visibleAnswer =
            or_else (answer parsedFinal) (or_else (extractAnswerFallbackText finalAnswer) apology)
      in (visibleAnswer, parsedFinal, w))"

text \<open>
  \<^verbatim>\<open>normalizeAssistantMarkdown\<close>, which the handler applies to the visible answer before
  it streams it: line endings are normalised, and when the text has escaped line feeds
  (a backslash and the letter n) and either no real line feed or at least twice as many
  escaped as real ones, every escaped line feed and every escaped tab is replaced by the
  real character.
\<close>

definition normalizeAssistantMarkdown :: "jsstring \<Rightarrow> jsstring" where
  "normalizeAssistantMarkdown text =
     (let normalized = replace_crlf text;
          escapedNewlineCount = count_pair backslash 0x6E normalized;
          realNewlineCount = length (filter (\<lambda>c. c = newline) normalized)
      in if escapedNewlineCount > 0
            \<and> (realNewlineCount = 0 \<or> escapedNewlineCount \<ge> realNewlineCount * 2)
         then replace_pair backslash 0x74 [0x9] (replace_pair backslash 0x6E [newline] normalized)
         else normalized)"

text \<open>
  The source numbers handed to \<^verbatim>\<open>getSourceFragmentsByNumber\<close>: those of the final parse
  when it is ok, none otherwise.
\<close>

definition post_sourceFragments ::
  "num_printer \<Rightarrow> RetrievedChunk list \<Rightarrow> ParsedFinalModelOutput \<Rightarrow> js_error + SourceFragment list"
where
  "post_sourceFragments String contextChunks parsedFinal =
     getSourceFragmentsByNumber String contextChunks
       (if ok parsedFinal then usedSourceNumbers parsedFinal else [])"

text \<open>
  For the examples: a provider whose first answer is cut off (\<^verbatim>\<open>MAX_TOKENS\<close>) and whose
  second answer is complete, the state being the number of calls so far; a provider
  that always throws; a provider that answers every request with the complete JSON text
  \<^verbatim>\<open>{"answer": " 42 points ", "usedSourceNumbers": [1]}\<close>; and the value of
  \<^verbatim>\<open>JSON.parse\<close> at the two JSON texts of the examples, \<^verbatim>\<open>{}\<close> and that one.
\<close>

definition truncating_backend :: "nat backend" where
  "truncating_backend request calls =
     (if calls = 0
      then Inr \<lparr> result_text = js ''{ first'', finishReason = Some (js ''MAX_TOKENS'') \<rparr>
      else Inr \<lparr> result_text = js ''second'', finishReason = Some (js ''STOP'') \<rparr>,
      Suc calls)"

definition failing_backend :: "nat backend" where
  "failing_backend request calls = (Inl (Error (js ''Gemini request failed: 503'')), Suc calls)"

definition complete_answer_text :: jsstring where
  "complete_answer_text =
     js ''{'' @ quoted (js ''answer'') @ js '': '' @ quoted (js '' 42 points '') @ js '', ''
       @ quoted (js ''usedSourceNumbers'') @ js '': [1]}''"

definition example_final_parse :: json_parser where
  "example_final_parse t =
     (if t = js ''{}'' then Some (JObj [])
      else if t = complete_answer_text
      then Some (JObj [(js ''answer'', JStr (js '' 42 points '')),
                       (js ''usedSourceNumbers'', JArr [JNum (Finite 1)])])
      else None)"

definition repairing_backend :: "nat backend" where
  "repairing_backend request calls =
     (Inr \<lparr> result_text = complete_answer_text, finishReason = Some (js ''STOP'') \<rparr>, Suc calls)"

text \<open>The same provider, with every error it throws replaced.\<close>

definition with_errors :: "(js_error \<Rightarrow> js_error) \<Rightarrow> 'w backend \<Rightarrow> 'w backend" where
  "with_errors f generate request w =
     (case generate request w of
        (Inl error, w') \<Rightarrow> (Inl (f error), w')
      | (Inr result, w') \<Rightarrow> (Inr result, w'))"

text \<open>A final answer that was cut off inside its JSON object, for the examples.\<close>

definition truncated_answer_text :: jsstring where
  "truncated_answer_text =
     js ''{'' @ quoted (js ''answer'') @ js '': '' @
       quoted (js ''Hi '' @ [backslash] @ quoted (js ''you'' @ [backslash]) @ [backslash] @ js ''nthere'')
     @ js '', '' @ quoted (js ''usedSourceNumbers'') @ js '': [1''"

section \<open>Streaming encoder and the client's decoder\<close>

text \<open>
  \<^verbatim>\<open>text.split(/(\n+)/)\<close>: the text is cut at every maximal run of line feeds, and the
  runs themselves are kept, so pieces and runs alternate (a text that starts or ends
  with a run has an empty first or last piece).
\<close>

function split_newline_runs :: "jsstring \<Rightarrow> jsstring list" where
  "split_newline_runs s =
     (case dropWhile (\<lambda>c. c \<noteq> newline) s of
        [] \<Rightarrow> [s]
      | r # rs \<Rightarrow>
          takeWhile (\<lambda>c. c \<noteq> newline) s # takeWhile (\<lambda>c. c = newline) (r # rs)
            # split_newline_runs (dropWhile (\<lambda>c. c = newline) (r # rs)))"
  by pat_completeness auto
termination
proof (relation "measure length")
  show "wf (measure length)" by simp
next
  fix s :: jsstring and r rs
  assume d: "dropWhile (\<lambda>c. c \<noteq> newline) s = r # rs"
  then have "r = newline" using hd_dropWhile [of "\<lambda>c. c \<noteq> newline" s] by simp
  then have "length (dropWhile (\<lambda>c. c = newline) (r # rs)) \<le> length rs"
    by (simp add: length_dropWhile_le)
  also have "length rs < length (r # rs)" by simp
  also have "length (r # rs) \<le> length s"
    using length_dropWhile_le [of "\<lambda>c. c \<noteq> newline" s] by (simp only: d)
  finally show "(dropWhile (\<lambda>c. c = newline) (r # rs), s) \<in> measure length" by simp
qed

declare split_newline_runs.simps [simp del]

text \<open>
  \<^verbatim>\<open>part.match(/.{1,120}/g)\<close>: from the left, each match takes as many characters as it
  can, up to 120, none of them a line terminator; a line terminator is passed over.
  The list is empty when there is no match (where \<^verbatim>\<open>match\<close> returns \<^verbatim>\<open>null\<close>).
\<close>

function dot_matches :: "jsstring \<Rightarrow> jsstring list" where
  "dot_matches [] = []"
| "dot_matches (c # cs) =
     (if isLineTerminator c then dot_matches cs
      else takeWhile (\<lambda>x. \<not> isLineTerminator x) (take 120 (c # cs))
             # dot_matches (drop (length (takeWhile (\<lambda>x. \<not> isLineTerminator x) (take 120 (c # cs))))
                  (c # cs)))"
  by pat_completeness auto
termination
  by (relation "measure length") auto

declare dot_matches.simps [simp del]

definition splitForStream :: "jsstring \<Rightarrow> jsstring list" where
  "splitForStream text =
     filter (\<lambda>part. length part > 0)
       (concat (map (\<lambda>part. if trim part = [] then [part]
                              else (case dot_matches part of [] \<Rightarrow> [part] | m # ms \<Rightarrow> m # ms))
          (split_newline_runs text)))"

definition RAG_CONTEXT_START :: jsstring where
  "RAG_CONTEXT_START = js ''<<RAG_CONTEXT_JSON>>''"

definition RAG_CONTEXT_END :: jsstring where
  "RAG_CONTEXT_END = js ''<<END_RAG_CONTEXT_JSON>>''"

text \<open>The object \<^verbatim>\<open>{ sourceFragments }\<close> that the handler hands to \<^verbatim>\<open>JSON.stringify\<close>.\<close>

definition fragment_json :: "SourceFragment \<Rightarrow> json" where
  "fragment_json f =
     JObj [(js ''title'', JStr (title f)),
           (js ''url'', (case url f of Some u \<Rightarrow> JStr u | None \<Rightarrow> JNull)),
           (js ''excerpt'', JStr (excerpt f))]"

definition metadata_json :: "SourceFragment list \<Rightarrow> json" where
  "metadata_json sourceFragments = JObj [(js ''sourceFragments'', JArr (map fragment_json sourceFragments))]"

definition metadataMarker :: "json_printer \<Rightarrow> SourceFragment list \<Rightarrow> jsstring" where
  "metadataMarker JSON_stringify sourceFragments =
     [newline, newline] @ RAG_CONTEXT_START @ JSON_stringify (metadata_json sourceFragments)
       @ RAG_CONTEXT_END"

text \<open>The texts that the stream enqueues, in order: the segments of the visible answer, then the marker.\<close>

definition stream_chunks :: "json_printer \<Rightarrow> jsstring \<Rightarrow> SourceFragment list \<Rightarrow> jsstring list" where
  "stream_chunks JSON_stringify normalizedVisibleAnswer sourceFragments =
     splitForStream normalizedVisibleAnswer @ [metadataMarker JSON_stringify sourceFragments]"

text \<open>
  Each text is sent through \<^verbatim>\<open>TextEncoder.encode\<close> and read back by the client with
  \<^verbatim>\<open>new TextDecoder().decode\<close>. Encoding replaces every surrogate code unit that is not
  part of a pair by U+FFFD; decoding a chunk drops a byte order mark at its start.
  The client appends what it decodes to \<^verbatim>\<open>assistantContent\<close>. Each read of the client is
  taken to return one enqueued chunk as a whole.
\<close>

definition isHighSurrogate :: "jschar \<Rightarrow> bool" where
  "isHighSurrogate c = (0xD800 \<le> c \<and> c \<le> 0xDBFF)"

definition isLowSurrogate :: "jschar \<Rightarrow> bool" where
  "isLowSurrogate c = (0xDC00 \<le> c \<and> c \<le> 0xDFFF)"

definition isSurrogate :: "jschar \<Rightarrow> bool" where
  "isSurrogate c = (isHighSurrogate c \<or> isLowSurrogate c)"

fun toWellFormed :: "jsstring \<Rightarrow> jsstring" where
  "toWellFormed (a # b # cs) =
     (if isHighSurrogate a \<and> isLowSurrogate b then a # b # toWellFormed cs
      else if isHighSurrogate a \<or> isLowSurrogate a then 0xFFFD # toWellFormed (b # cs)
      else a # toWellFormed (b # cs))"
| "toWellFormed [a] = (if isHighSurrogate a \<or> isLowSurrogate a then [0xFFFD] else [a])"
| "toWellFormed [] = []"

definition encode_decode :: "jsstring \<Rightarrow> jsstring" where
  "encode_decode chunk =
     (case toWellFormed chunk of
        [] \<Rightarrow> []
      | c # cs \<Rightarrow> if c = 0xFEFF then cs else c # cs)"

definition received :: "jsstring list \<Rightarrow> jsstring" where
  "received chunks = concat (map encode_decode chunks)"

subsection \<open>The client\<close>

record AssistantPayload =
  payload_content :: jsstring
  payload_sourceFragments :: "SourceFragment list option"

definition excerpt_is_string :: "json \<Rightarrow> bool" where
  "excerpt_is_string item = (case get_prop item (js ''excerpt'') of Some (JStr e) \<Rightarrow> True | _ \<Rightarrow> False)"

definition client_fragment :: "json \<Rightarrow> SourceFragment" where
  "client_fragment item =
     \<lparr> title = (case get_prop item (js ''title'') of
                  Some (JStr t) \<Rightarrow> if trim t \<noteq> [] then trim t else js ''Source''
                | _ \<Rightarrow> js ''Source''),
       url = (case get_prop item (js ''url'') of
                Some (JStr u) \<Rightarrow> if trim u \<noteq> [] then Some (trim u) else None
              | _ \<Rightarrow> None),
       excerpt = (case get_prop item (js ''excerpt'') of Some (JStr e) \<Rightarrow> e | _ \<Rightarrow> []) \<rparr>"

definition parseAssistantPayload :: "json_parser \<Rightarrow> jsstring \<Rightarrow> AssistantPayload" where
  "parseAssistantPayload JSON_parse raw =
     (case indexOf raw RAG_CONTEXT_START of
        None \<Rightarrow> \<lparr> payload_content = raw, payload_sourceFragments = None \<rparr>
      | Some start \<Rightarrow>
          (case indexOf_from raw RAG_CONTEXT_END (start + length RAG_CONTEXT_START) of
             None \<Rightarrow> \<lparr> payload_content = slice raw 0 start, payload_sourceFragments = None \<rparr>
           | Some end \<Rightarrow>
               (let content = slice raw 0 start;
                    jsonText = slice raw (start + length RAG_CONTEXT_START) end
                in case JSON_parse jsonText of
                     None \<Rightarrow> \<lparr> payload_content = content, payload_sourceFragments = None \<rparr>
                   | Some JNull \<Rightarrow> \<lparr> payload_content = content, payload_sourceFragments = None \<rparr>
                   | Some parsed \<Rightarrow>
                       (let sourceFragments =
                              (case get_prop parsed (js ''sourceFragments'') of
                                 Some (JArr items) \<Rightarrow>
                                   map client_fragment (filter excerpt_is_string items)
                               | _ \<Rightarrow> [])
                        in \<lparr> payload_content = content,
                             payload_sourceFragments =
                               (if length sourceFragments > 0 then Some sourceFragments else None) \<rparr>))))"

text \<open>
  What the client makes of a fragment that the server sent: the title trimmed
  (\<^verbatim>\<open>Source\<close> when blank), the url trimmed (\<^verbatim>\<open>null\<close> when blank), the excerpt as it is.
\<close>

definition client_view :: "SourceFragment \<Rightarrow> SourceFragment" where
  "client_view f =
     \<lparr> title = (if trim (title f) \<noteq> [] then trim (title f) else js ''Source''),
       url = (case url f of Some u \<Rightarrow> if trim u \<noteq> [] then Some (trim u) else None | None \<Rightarrow> None),
       excerpt = excerpt f \<rparr>"

text \<open>
  For the examples: the values of \<^verbatim>\<open>JSON.stringify\<close> and \<^verbatim>\<open>JSON.parse\<close> at the two
  metadata objects used below, the one with no fragment and the one with the single
  fragment \<open>example_fragment\<close>.
\<close>

definition example_fragment :: SourceFragment where
  "example_fragment = \<lparr> title = js ''[1] Manual '', url = None, excerpt = js ''Rule <G1>'' \<rparr>"

definition empty_metadata_text :: jsstring where
  "empty_metadata_text = js ''{'' @ quoted (js ''sourceFragments'') @ js '':[]}''"

definition example_metadata_text :: jsstring where
  "example_metadata_text =
     js ''{'' @ quoted (js ''sourceFragments'') @ js '':[{'' @ quoted (js ''title'') @ js '':''
       @ quoted (js ''[1] Manual '') @ js '','' @ quoted (js ''url'') @ js '':null,''
       @ quoted (js ''excerpt'') @ js '':'' @ quoted (js ''Rule <G1>'') @ js ''}]}''"

definition example_stringify :: json_printer where
  "example_stringify v =
     (if v = metadata_json [] then empty_metadata_text
      else if v = metadata_json [example_fragment] then example_metadata_text
      else js ''null'')"

definition example_metadata_parse :: json_parser where
  "example_metadata_parse t =
     (if t = empty_metadata_text then Some (metadata_json [])
      else if t = example_metadata_text then Some (metadata_json [example_fragment])
      else None)"

section \<open>From the final model's text to the stream\<close>

text \<open>
  The end of the request handler: the visible answer is chosen, normalised, the source
  fragments are built from the final parse, and the stream enqueues the segments of the
  normalised answer and then the marker. The result is the list of enqueued texts (or
  the error that ends the request) and the state of the world.
\<close>

definition response_stream ::
  "json_parser \<Rightarrow> json_printer \<Rightarrow> num_printer \<Rightarrow> 'w backend \<Rightarrow> jsstring
     \<Rightarrow> RetrievedChunk list \<Rightarrow> jsstring \<Rightarrow> 'w \<Rightarrow> (js_error + jsstring list) \<times> 'w"
where
  "response_stream JSON_parse JSON_stringify String generateGeminiTextWithMeta finalModel
       contextChunks finalAnswer w =
     (case answer_stage JSON_parse generateGeminiTextWithMeta finalModel finalAnswer w of
        (visibleAnswer, parsedFinal, w') \<Rightarrow>
          (let normalizedVisibleAnswer = normalizeAssistantMarkdown visibleAnswer
           in case post_sourceFragments String contextChunks parsedFinal of
                Inl error \<Rightarrow> (Inl error, w')
              | Inr sourceFragments \<Rightarrow>
                  (Inr (stream_chunks JSON_stringify normalizedVisibleAnswer sourceFragments), w')))"

section \<open>Auxiliary definitions for the proofs\<close>

text \<open>
  None of the following is code of the program: each describes the result of one of
  its loops in closed form, or names a property that the proofs below need.
\<close>

text \<open>The windows that the chunker takes from a cleaned text, from a start position on.\<close>

function windows :: "jsstring \<Rightarrow> nat \<Rightarrow> nat \<Rightarrow> nat \<Rightarrow> jsstring list" where
  "windows s sz ov start =
     (if ov < sz \<and> start + sz < length s
      then take sz (drop start s) # windows s sz ov (start + sz - ov)
      else [drop start s])"
  by pat_completeness auto
termination
  by (relation "measure (\<lambda>(s, sz, ov, start). length s - start)") auto

declare windows.simps [simp del]

text \<open>Adjacent chunks share \<open>ov\<close> characters.\<close>

fun overlap_ok :: "nat \<Rightarrow> jsstring list \<Rightarrow> bool" where
  "overlap_ok ov (a # b # cs) =
     (ov \<le> length a \<and> ov \<le> length b \<and> drop (length a - ov) a = take ov b
      \<and> overlap_ok ov (b # cs))"
| "overlap_ok ov cs = True"

text \<open>The loop keeps, in order, each chunk whose key was not seen before.\<close>

fun keep_first :: "('a \<Rightarrow> 'k) \<Rightarrow> 'k set \<Rightarrow> 'a list \<Rightarrow> 'a list" where
  "keep_first k seen [] = []"
| "keep_first k seen (c # cs) =
     (if k c \<in> seen then keep_first k seen cs else c # keep_first k (insert (k c) seen) cs)"

text \<open>The natural number that a number stands for, when it stands for one.\<close>

definition number_nat :: "jsnum \<Rightarrow> nat" where
  "number_nat n = (case n of Finite q \<Rightarrow> nat \<lfloor>q\<rfloor> | _ \<Rightarrow> 0)"

text \<open>A pattern none of whose proper suffixes is a prefix of it.\<close>

definition unbordered :: "jsstring \<Rightarrow> bool" where
  "unbordered pat = list_all (\<lambda>d. drop d pat \<noteq> take (length pat - d) pat) [1..<length pat]"


text \<open>
  A character that is still there after normalisation and segmentation: one that is not
  white space, or a line feed, or a tab.
\<close>

definition survives :: "jschar \<Rightarrow> bool" where
  "survives c = (\<not> isWhiteSpace c \<or> c = newline \<or> c = 0x9)"

subsection \<open>Properties of the normalizer\<close>

lemma pad_loop_eq: "pad_loop T p = p @ replicate (T - length p) 0"
proof (induction T p rule: pad_loop.induct)
  case (1 T p)
  show ?case
  proof (cases "length p < T")
    case True
    then have "T - length p = Suc (T - Suc (length p))" by simp
    with True "1" show ?thesis
      by (simp add: replicate_app_Cons_same pad_loop.simps [of T p])
  next
    case False
    then show ?thesis by (simp add: pad_loop.simps [of T p])
  qed
qed

lemma pad_loop_ingest_eq: "pad_loop_ingest T p = pad_loop T p"
proof (induction T p rule: pad_loop.induct)
  case (1 T p)
  then show ?case
    by (simp add: pad_loop.simps [of T p] pad_loop_ingest.simps [of T p])
qed

lemma bucket_sum_ingest_eq: "bucket_sum_ingest = bucket_sum"
  by (intro ext) (simp add: bucket_sum_ingest_def bucket_sum_def)

lemma foldl_plus_shift: "foldl (\<lambda>s j. s + f j) (a::real) ks = a + sum_list (map f ks)"
  by (induction ks arbitrary: a) (simp_all add: add.assoc)

lemma bucket_sum_eq:
  assumes "(i + 1) * ratio \<le> length embedding"
  shows "bucket_sum embedding ratio i = sum_list (take ratio (drop (i * ratio) embedding))"
proof -
  have len: "length (take ratio (drop (i * ratio) embedding)) = ratio"
    using assms by simp
  have "map (\<lambda>j. embedding ! (i * ratio + j)) [0..<ratio]
          = take ratio (drop (i * ratio) embedding)"
    using assms by (intro nth_equalityI) (simp_all add: len)
  then show ?thesis
    by (simp add: bucket_sum_def foldl_plus_shift)
qed

text \<open>
  C2. For every input vector and every target dimension the result has exactly the
  target length; it is the input itself when the lengths agree, the list of bucket
  means (bucket \<open>i\<close> is the \<open>i\<close>-th run of \<open>length v div T\<close> consecutive
  components) when the input is longer and its length is a multiple of the target,
  the first \<open>T\<close> components when it is longer otherwise, and the input followed by
  zeros when it is shorter.
\<close>

theorem normalizeEmbedding_contract:
  "length (normalizeEmbedding T v) = T
   \<and> (length v = T \<longrightarrow> normalizeEmbedding T v = v)
   \<and> (length v > T \<and> T dvd length v \<and> i < T \<longrightarrow>
        normalizeEmbedding T v ! i
          = sum_list (take (length v div T) (drop (i * (length v div T)) v))
              / real (length v div T))
   \<and> (length v > T \<and> \<not> T dvd length v \<longrightarrow> normalizeEmbedding T v = take T v)
   \<and> (length v < T \<longrightarrow> normalizeEmbedding T v = v @ replicate (T - length v) 0)"
proof -
  have len: "length (normalizeEmbedding T v) = T"
    by (simp add: normalizeEmbedding_def Let_def pad_loop_eq)
  have same: "length v = T \<longrightarrow> normalizeEmbedding T v = v"
    by (simp add: normalizeEmbedding_def)
  have mean: "length v > T \<and> T dvd length v \<and> i < T \<longrightarrow>
        normalizeEmbedding T v ! i
          = sum_list (take (length v div T) (drop (i * (length v div T)) v))
              / real (length v div T)"
  proof (intro impI)
    assume h: "length v > T \<and> T dvd length v \<and> i < T"
    let ?r = "length v div T"
    from h have eq: "?r * T = length v" by simp
    from h have "(i + 1) * ?r \<le> T * ?r" by (intro mult_le_mono1) simp
    with eq have bound: "(i + 1) * ?r \<le> length v" by (simp add: mult.commute)
    from h have "normalizeEmbedding T v ! i = bucket_sum v ?r i / real ?r"
      by (simp add: normalizeEmbedding_def Let_def mod_eq_0_iff_dvd)
    with bound show "normalizeEmbedding T v ! i
        = sum_list (take ?r (drop (i * ?r) v)) / real ?r"
      by (simp add: bucket_sum_eq)
  qed
  have trunc: "length v > T \<and> \<not> T dvd length v \<longrightarrow> normalizeEmbedding T v = take T v"
    by (simp add: normalizeEmbedding_def Let_def mod_eq_0_iff_dvd)
  have pad: "length v < T \<longrightarrow> normalizeEmbedding T v = v @ replicate (T - length v) 0"
    by (simp add: normalizeEmbedding_def Let_def pad_loop_eq)
  from len same mean trunc pad show ?thesis by blast
qed

theorem normalizeEmbedding_contract_witness:
  "normalizeEmbedding 2 [1, 2] = [1, 2]
   \<and> normalizeEmbedding 2 [1, 3, 5, 9] ! 0 = 2
   \<and> normalizeEmbedding 2 [1, 3, 5, 9] ! 1 = 7
   \<and> normalizeEmbedding 2 [1, 3, 5] = [1, 3]
   \<and> normalizeEmbedding 3 [4] = 4 # replicate 2 0
   \<and> length (normalizeEmbedding 0 [1, 2, 3]) = 0"
proof -
  have same: "normalizeEmbedding 2 [1, 2] = [1, 2]"
    using normalizeEmbedding_contract [of 2 "[1, 2]"] by simp
  have m0: "normalizeEmbedding 2 [1, 3, 5, 9] ! 0 = 2"
    using normalizeEmbedding_contract [of 2 "[1, 3, 5, 9]" 0] by simp
  have m1: "normalizeEmbedding 2 [1, 3, 5, 9] ! 1 = 7"
    using normalizeEmbedding_contract [of 2 "[1, 3, 5, 9]" 1] by simp
  have trunc: "normalizeEmbedding 2 [1, 3, 5] = [1, 3]"
    using normalizeEmbedding_contract [of 2 "[1, 3, 5]"] by simp
  have pad: "normalizeEmbedding 3 [4] = 4 # replicate 2 0"
    using normalizeEmbedding_contract [of 3 "[4]"] by simp
  have zero: "length (normalizeEmbedding 0 [1, 2, 3]) = 0"
    using normalizeEmbedding_contract [of 0 "[1, 2, 3]"] by blast
  from same m0 m1 trunc pad zero show ?thesis by blast
qed

text \<open>
  C3. The normalizer of the ingestion script and the normalizer of the RAG library
  (applied to query embeddings) return the same vector for every input, given the
  same target dimension.
\<close>

theorem normalizeEmbedding_ingest_same:
  "normalizeEmbedding_ingest T v = normalizeEmbedding T v"
  by (simp add: normalizeEmbedding_ingest_def normalizeEmbedding_def Let_def
        bucket_sum_ingest_eq pad_loop_ingest_eq)

subsection \<open>Properties of the chunker\<close>

lemma nat_max_diff: "nat (max 0 (int a - int b)) = a - b"
  by arith

lemma buildChunks_loop_step:
  "buildChunks_loop s sz ov start acc =
     (if start < length s then
        (if length s \<le> start + sz then Some (acc @ [drop start s])
         else buildChunks_loop s sz ov (start + sz - ov) (acc @ [take sz (drop start s)]))
      else Some acc)"
proof -
  have a: "nat (max 0 (int (start + sz) - int ov)) = start + sz - ov"
    by (rule nat_max_diff)
  show ?thesis
    by (subst buildChunks_loop.simps) (simp add: Let_def slice_def min_def a del: of_nat_add)
qed

lemma buildChunks_loop_windows:
  assumes "0 < ov" "ov < sz" "start < length s"
  shows "buildChunks_loop s sz ov start acc = Some (acc @ windows s sz ov start)"
  using assms
proof (induction s sz ov start arbitrary: acc rule: windows.induct)
  case (1 s sz ov start)
  show ?case
  proof (cases "start + sz < length s")
    case True
    with "1.prems" have next_lt: "start + sz - ov < length s" by simp
    from True "1.prems" have
      "buildChunks_loop s sz ov start acc
         = buildChunks_loop s sz ov (start + sz - ov) (acc @ [take sz (drop start s)])"
      by (subst buildChunks_loop_step) simp
    also have "\<dots> = Some ((acc @ [take sz (drop start s)]) @ windows s sz ov (start + sz - ov))"
      using True "1.prems" next_lt by (intro "1.IH") simp_all
    finally show ?thesis
      using True "1.prems" by (simp add: windows.simps [of s sz ov start])
  next
    case False
    with "1.prems" show ?thesis
      by (subst buildChunks_loop_step) (simp add: windows.simps [of s sz ov start])
  qed
qed

lemma windows_nonempty: "windows s sz ov start \<noteq> []"
  by (simp add: windows.simps [of s sz ov start])

lemma windows_hd_take:
  "ov \<le> sz \<Longrightarrow> take ov (hd (windows s sz ov start)) = take ov (drop start s)"
  by (simp add: windows.simps [of s sz ov start] min_def)

lemma windows_hd_length:
  "ov < sz \<Longrightarrow> start + ov \<le> length s \<Longrightarrow> ov \<le> length (hd (windows s sz ov start))"
  by (auto simp: windows.simps [of s sz ov start])

lemma windows_length_le:
  "0 < ov \<Longrightarrow> ov < sz \<Longrightarrow> c \<in> set (windows s sz ov start) \<Longrightarrow> length c \<le> sz"
proof (induction s sz ov start rule: windows.induct)
  case (1 s sz ov start)
  show ?case
  proof (cases "start + sz < length s")
    case True
    with "1.prems" have "c = take sz (drop start s) \<or> c \<in> set (windows s sz ov (start + sz - ov))"
      by (simp add: windows.simps [of s sz ov start])
    with True "1.prems" "1.IH" show ?thesis by auto
  next
    case False
    with "1.prems" have "c = drop start s"
      by (simp add: windows.simps [of s sz ov start])
    with False show ?thesis by simp
  qed
qed

lemma windows_last_suffix: "suffix (last (windows s sz ov start)) s"
proof (induction s sz ov start rule: windows.induct)
  case (1 s sz ov start)
  then show ?case
    by (subst windows.simps) (auto simp: windows_nonempty suffix_drop)
qed

lemma windows_overlap_ok:
  "0 < ov \<Longrightarrow> ov < sz \<Longrightarrow> overlap_ok ov (windows s sz ov start)"
proof (induction s sz ov start rule: windows.induct)
  case (1 s sz ov start)
  show ?case
  proof (cases "start + sz < length s")
    case True
    let ?rest = "windows s sz ov (start + sz - ov)"
    obtain b cs where rest: "?rest = b # cs"
      using windows_nonempty [of s sz ov "start + sz - ov"] by (cases ?rest) auto
    from True "1.prems" have ok: "overlap_ok ov ?rest" by (intro "1.IH") simp_all
    have b: "b = hd ?rest" using rest by simp
    from True "1.prems" have lb: "ov \<le> length b"
      unfolding b by (intro windows_hd_length) simp_all
    from "1.prems" have tb: "take ov b = take ov (drop (start + sz - ov) s)"
      unfolding b by (intro windows_hd_take) simp
    from True "1.prems" have
      "drop (sz - ov) (take sz (drop start s)) = take ov (drop (start + sz - ov) s)"
      by (simp add: drop_take add.commute)
    with True "1.prems" lb tb ok rest show ?thesis
      by (simp add: windows.simps [of s sz ov start])
  next
    case False
    then show ?thesis by (simp add: windows.simps [of s sz ov start])
  qed
qed

lemma overlap_ok_nth:
  "overlap_ok ov cs \<Longrightarrow> Suc i < length cs \<Longrightarrow>
     ov \<le> length (cs ! i) \<and> ov \<le> length (cs ! Suc i)
     \<and> drop (length (cs ! i) - ov) (cs ! i) = take ov (cs ! Suc i)"
proof (induction ov cs arbitrary: i rule: overlap_ok.induct)
  case (1 ov a b cs)
  then show ?case by (cases i) auto
qed auto

text \<open>
  C7. For every text and every size and overlap with \<open>0 < overlap < size\<close>, both copies of
  \<^verbatim>\<open>buildChunks\<close> return (the loop ends), with the same chunks; there is a chunk exactly
  when the cleaned text is not empty; no chunk is longer than \<open>size\<close>; the final chunk is
  a suffix of the cleaned text, so it ends at the text's length; and of two adjacent chunks
  the last \<open>overlap\<close> characters of the first are the first \<open>overlap\<close> characters of the
  second.
\<close>

theorem buildChunks_windowing:
  assumes "0 < overlap" and "overlap < chunkSize"
  shows "\<exists>chunks. buildChunks text chunkSize overlap = Some chunks
      \<and> buildChunks_ingest chunkSize overlap text = Some chunks
      \<and> (chunks = [] \<longleftrightarrow> trim (replace_crlf text) = [])
      \<and> (\<forall>c \<in> set chunks. length c \<le> chunkSize)
      \<and> (chunks \<noteq> [] \<longrightarrow> suffix (last chunks) (trim (replace_crlf text)))
      \<and> (\<forall>i. Suc i < length chunks \<longrightarrow>
            overlap \<le> length (chunks ! i) \<and> overlap \<le> length (chunks ! Suc i)
            \<and> drop (length (chunks ! i) - overlap) (chunks ! i) = take overlap (chunks ! Suc i))"
proof (cases "trim (replace_crlf text) = []")
  case True
  then show ?thesis
    by (simp add: buildChunks_def buildChunks_ingest_def)
next
  case False
  let ?cleaned = "trim (replace_crlf text)"
  let ?chunks = "windows ?cleaned chunkSize overlap 0"
  from False have pos: "0 < length ?cleaned" by simp
  have run: "buildChunks_loop ?cleaned chunkSize overlap 0 [] = Some ?chunks"
    using buildChunks_loop_windows [OF assms pos, of "[]"] by simp
  have lib: "buildChunks text chunkSize overlap = Some ?chunks"
    using False run by (simp add: buildChunks_def)
  have ingest: "buildChunks_ingest chunkSize overlap text = Some ?chunks"
    using False run by (simp add: buildChunks_ingest_def)
  have ne: "?chunks \<noteq> []" by (rule windows_nonempty)
  have len: "\<forall>c \<in> set ?chunks. length c \<le> chunkSize"
    using windows_length_le [OF assms] by blast
  have suf: "suffix (last ?chunks) ?cleaned" by (rule windows_last_suffix)
  have ov: "\<forall>i. Suc i < length ?chunks \<longrightarrow>
            overlap \<le> length (?chunks ! i) \<and> overlap \<le> length (?chunks ! Suc i)
            \<and> drop (length (?chunks ! i) - overlap) (?chunks ! i) = take overlap (?chunks ! Suc i)"
    using overlap_ok_nth [OF windows_overlap_ok [OF assms]] by blast
  from lib ingest ne False len suf ov show ?thesis by blast
qed

theorem buildChunks_windowing_witness:
  "(0::nat) < 1 \<and> (1::nat) < 4
   \<and> buildChunks (js ''  abcdefghij '') 4 1 = Some [js ''abcd'', js ''defg'', js ''ghij'']
   \<and> (\<exists>chunks. buildChunks (js ''  abcdefghij '') 4 1 = Some chunks
        \<and> list_all (\<lambda>c. length c \<le> 4) chunks
        \<and> suffix (last chunks) (js ''abcdefghij'')
        \<and> drop (length (chunks ! 0) - 1) (chunks ! 0) = take 1 (chunks ! 1)
        \<and> drop (length (chunks ! 1) - 1) (chunks ! 1) = take 1 (chunks ! 2))"
proof -
  have h1: "(0::nat) < 1" and h2: "(1::nat) < 4" by simp_all
  have cleaned: "trim (replace_crlf (js ''  abcdefghij '')) = js ''abcdefghij''"
    by (simp add: js_def trim_def isWhiteSpace_def replace_crlf_def)
  have run: "buildChunks (js ''  abcdefghij '') 4 1 = Some [js ''abcd'', js ''defg'', js ''ghij'']"
    unfolding buildChunks_def cleaned by (simp add: js_def buildChunks_loop_step)
  from buildChunks_windowing [OF h1 h2, of "js ''  abcdefghij ''"]
  obtain chunks where c: "buildChunks (js ''  abcdefghij '') 4 1 = Some chunks"
    and len: "\<forall>c \<in> set chunks. length c \<le> 4"
    and suf: "chunks \<noteq> [] \<longrightarrow> suffix (last chunks) (trim (replace_crlf (js ''  abcdefghij '')))"
    and ov: "\<forall>i. Suc i < length chunks \<longrightarrow>
            1 \<le> length (chunks ! i) \<and> 1 \<le> length (chunks ! Suc i)
            \<and> drop (length (chunks ! i) - 1) (chunks ! i) = take 1 (chunks ! Suc i)"
    by blast
  from c run have three: "length chunks = 3" by simp
  from three have ne: "chunks \<noteq> []" by auto
  from ov three have o0: "drop (length (chunks ! 0) - 1) (chunks ! 0) = take 1 (chunks ! 1)"
    by (metis One_nat_def Suc_1 Suc_lessD lessI numeral_3_eq_3)
  from ov three have o1: "drop (length (chunks ! 1) - 1) (chunks ! 1) = take 1 (chunks ! 2)"
    by (metis One_nat_def Suc_1 lessI numeral_3_eq_3)
  from len have la: "list_all (\<lambda>c. length c \<le> 4) chunks" by (simp add: list_all_iff)
  from suf ne cleaned have sf: "suffix (last chunks) (js ''abcdefghij'')" by simp
  from h1 h2 run c la sf o0 o1 show ?thesis by blast
qed

subsection \<open>Properties of deduplication\<close>

lemma decimal_digit: "n < 10 \<Longrightarrow> decimal n = [of_nat (48 + n)]"
  by (simp add: decimal.simps [of n])

lemma dedupe_loop_keep_first:
  "dedupe_loop S seen out cs = out @ keep_first (chunk_key S) seen cs"
  by (induction cs arbitrary: seen out) (simp_all add: Let_def)

lemma keep_first_keys: "k ` set (keep_first k seen cs) = k ` set cs - seen"
  by (induction cs arbitrary: seen) auto

lemma keep_first_distinct: "distinct (map k (keep_first k seen cs))"
proof (induction cs arbitrary: seen)
  case Nil
  show ?case by simp
next
  case (Cons c cs)
  have "k c \<notin> k ` set (keep_first k (insert (k c) seen) cs)"
    by (simp add: keep_first_keys)
  with Cons show ?case by simp
qed

lemma keep_first_subseq: "subseq (keep_first k seen cs) cs"
  by (induction cs arbitrary: seen) auto

lemma keep_first_find:
  "c \<in> set (keep_first k seen cs) \<Longrightarrow> find (\<lambda>d. k d = k c) cs = Some c"
proof (induction cs arbitrary: seen)
  case Nil
  then show ?case by simp
next
  case (Cons a cs)
  show ?case
  proof (cases "k a \<in> seen")
    case True
    with Cons.prems have mem: "c \<in> set (keep_first k seen cs)" by simp
    then have "k c \<in> k ` set cs - seen"
      using keep_first_keys [of k seen cs] by blast
    with True have "k a \<noteq> k c" by auto
    with Cons.IH [OF mem] show ?thesis by simp
  next
    case False
    with Cons.prems have "c = a \<or> c \<in> set (keep_first k (insert (k a) seen) cs)" by simp
    then show ?thesis
    proof
      assume "c = a"
      then show ?thesis by simp
    next
      assume mem: "c \<in> set (keep_first k (insert (k a) seen) cs)"
      then have "k c \<in> k ` set cs - insert (k a) seen"
        using keep_first_keys [of k "insert (k a) seen" cs] by blast
      then have "k a \<noteq> k c" by auto
      with Cons.IH [OF mem] show ?thesis by simp
    qed
  qed
qed

text \<open>
  C8, as the code has it. The identity key of a chunk is its id when present, and
  otherwise \<^verbatim>\<open>source:chunk_index\<close>, where the \<^verbatim>\<open>chunk_index\<close> metadata entry is printed
  when it is a number, taken as it is when it is a string, and replaced by \<^verbatim>\<open>na\<close> in
  every other case. No two entries of the list returned by \<^verbatim>\<open>dedupeChunks\<close> share
  this key; the list is a subsequence of the input (first-seen order), has a chunk for
  every key of the input, and each of its chunks is the first chunk of the input with
  its key.
\<close>

theorem dedupeChunks_distinct_keys:
  "distinct (map (chunk_key S) (dedupeChunks S chunks))
   \<and> subseq (dedupeChunks S chunks) chunks
   \<and> chunk_key S ` set (dedupeChunks S chunks) = chunk_key S ` set chunks
   \<and> (\<forall>c \<in> set (dedupeChunks S chunks).
         find (\<lambda>d. chunk_key S d = chunk_key S c) chunks = Some c)
   \<and> (\<forall>c i. chunk_id c = Some i \<longrightarrow> chunk_key S c = i)
   \<and> (\<forall>c. chunk_id c = None \<longrightarrow>
         chunk_key S c = source c @ js '':'' @
           (case metadata_prop c (js ''chunk_index'') of
              Some (JNum n) \<Rightarrow> S n | Some (JStr s) \<Rightarrow> s | _ \<Rightarrow> js ''na''))"
proof -
  have eq: "dedupeChunks S chunks = keep_first (chunk_key S) {} chunks"
    by (simp add: dedupeChunks_def dedupe_loop_keep_first)
  have d: "distinct (map (chunk_key S) (dedupeChunks S chunks))"
    unfolding eq by (rule keep_first_distinct)
  have s: "subseq (dedupeChunks S chunks) chunks"
    unfolding eq by (rule keep_first_subseq)
  have k: "chunk_key S ` set (dedupeChunks S chunks) = chunk_key S ` set chunks"
    unfolding eq by (simp add: keep_first_keys)
  have f: "\<forall>c \<in> set (dedupeChunks S chunks).
         find (\<lambda>d. chunk_key S d = chunk_key S c) chunks = Some c"
    unfolding eq using keep_first_find [of _ "chunk_key S" "{}" chunks] by blast
  have i: "\<forall>c i. chunk_id c = Some i \<longrightarrow> chunk_key S c = i"
    by (simp add: chunk_key_def)
  have n: "\<forall>c. chunk_id c = None \<longrightarrow>
         chunk_key S c = source c @ js '':'' @
           (case metadata_prop c (js ''chunk_index'') of
              Some (JNum n) \<Rightarrow> S n | Some (JStr s) \<Rightarrow> s | _ \<Rightarrow> js ''na'')"
    by (simp add: chunk_key_def)
  from d s k f i n show ?thesis by blast
qed

lemma example_chunk_key:
  "chunk_key S (example_chunk i src idx) =
     (case i of
        Some x \<Rightarrow> x
      | None \<Rightarrow> src @ js '':'' @
          (case idx of Some (JNum n) \<Rightarrow> S n | Some (JStr s) \<Rightarrow> s | _ \<Rightarrow> js ''na''))"
  by (simp add: chunk_key_def example_chunk_def metadata_prop_def split: option.splits)

theorem dedupeChunks_distinct_keys_witness:
  "dedupeChunks String_of_integer
     [example_chunk None (js ''a.md'') (Some (JNum (Finite 1))),
      example_chunk None (js ''a.md'') (Some (JStr (js ''1''))),
      example_chunk (Some (js ''u1'')) (js ''b.md'') None,
      example_chunk None (js ''a.md'') None]
   = [example_chunk None (js ''a.md'') (Some (JNum (Finite 1))),
      example_chunk (Some (js ''u1'')) (js ''b.md'') None,
      example_chunk None (js ''a.md'') None]
   \<and> distinct (map (chunk_key String_of_integer)
        (dedupeChunks String_of_integer
          [example_chunk None (js ''a.md'') (Some (JNum (Finite 1))),
           example_chunk None (js ''a.md'') (Some (JStr (js ''1''))),
           example_chunk (Some (js ''u1'')) (js ''b.md'') None,
           example_chunk None (js ''a.md'') None]))
   \<and> chunk_key String_of_integer (example_chunk (Some (js ''u1'')) (js ''b.md'') None) = js ''u1''
   \<and> chunk_key String_of_integer (example_chunk None (js ''a.md'') None) = js ''a.md:na''"
proof -
  let ?S = String_of_integer
  let ?cs = "[example_chunk None (js ''a.md'') (Some (JNum (Finite 1))),
      example_chunk None (js ''a.md'') (Some (JStr (js ''1''))),
      example_chunk (Some (js ''u1'')) (js ''b.md'') None,
      example_chunk None (js ''a.md'') None]"
  note inst = dedupeChunks_distinct_keys [of ?S ?cs]
  have one: "?S (Finite 1) = js ''1''"
    by (simp add: String_of_integer_def decimal_digit js_def)
  have run: "dedupeChunks ?S ?cs = [?cs ! 0, ?cs ! 2, ?cs ! 3]"
    by (simp add: dedupeChunks_def example_chunk_key one js_def Let_def)
  from inst have d: "distinct (map (chunk_key ?S) (dedupeChunks ?S ?cs))" by blast
  from inst have "chunk_id (?cs ! 2) = Some (js ''u1'') \<longrightarrow> chunk_key ?S (?cs ! 2) = js ''u1''"
    by blast
  then have k1: "chunk_key ?S (?cs ! 2) = js ''u1''"
    by (simp add: example_chunk_def)
  from inst have "chunk_id (?cs ! 3) = None \<longrightarrow>
      chunk_key ?S (?cs ! 3) = source (?cs ! 3) @ js '':'' @
           (case metadata_prop (?cs ! 3) (js ''chunk_index'') of
              Some (JNum n) \<Rightarrow> ?S n | Some (JStr s) \<Rightarrow> s | _ \<Rightarrow> js ''na'')"
    by blast
  then have k2: "chunk_key ?S (?cs ! 3) = js ''a.md:na''"
    by (simp add: example_chunk_def metadata_prop_def js_def)
  from run d k1 k2 show ?thesis by simp
qed

text \<open>
  With the key as the specification words it (\<^verbatim>\<open>na\<close> for every \<^verbatim>\<open>chunk_index\<close> that is
  not a number), two chunks of one source whose \<^verbatim>\<open>chunk_index\<close> entries are different
  strings have the same key, and \<^verbatim>\<open>dedupeChunks\<close> returns both.
\<close>

theorem dedupeChunks_spec_key_counterexample:
  "\<not> distinct (map (spec_identity_key String_of_integer)
        (dedupeChunks String_of_integer
          [example_chunk None (js ''a.md'') (Some (JStr (js ''a''))),
           example_chunk None (js ''a.md'') (Some (JStr (js ''b'')))]))"
proof -
  have run: "dedupeChunks String_of_integer
          [example_chunk None (js ''a.md'') (Some (JStr (js ''a''))),
           example_chunk None (js ''a.md'') (Some (JStr (js ''b'')))]
        = [example_chunk None (js ''a.md'') (Some (JStr (js ''a''))),
           example_chunk None (js ''a.md'') (Some (JStr (js ''b'')))]"
    by (simp add: dedupeChunks_def example_chunk_key js_def Let_def)
  show ?thesis
    unfolding run
    by (simp add: spec_identity_key_def example_chunk_def metadata_prop_def)
qed

subsection \<open>Properties of the retrieval step\<close>

lemma Promise_all_fulfilled:
  "\<not> (\<exists>r \<in> set rs. isl r) \<Longrightarrow> Promise_all rs = Inr (map projr rs)"
proof (induction rs)
  case Nil
  show ?case by simp
next
  case (Cons r rs)
  then show ?case by (cases r) simp_all
qed

lemma Promise_all_rejected:
  "\<exists>r \<in> set rs. isl r \<Longrightarrow> \<exists>e. Promise_all rs = Inl e"
proof (induction rs)
  case Nil
  then show ?case by simp
next
  case (Cons r rs)
  show ?case
  proof (cases r)
    case (Inl e)
    then show ?thesis by simp
  next
    case (Inr v)
    with Cons.prems have "\<exists>r \<in> set rs. isl r" by simp
    from Cons.IH [OF this] Inr show ?thesis by auto
  qed
qed

text \<open>
  C4, as the code has it. When every per-query retrieval call succeeds, the context is
  the deduplicated concatenation of all the results and nothing is logged. When any call
  fails, the error is logged, the results of all the queries are dropped, and the
  pipeline continues with the empty context. Either way the step ends with a context:
  retrieval never fails the request.
\<close>

theorem retrieve_context_all_or_nothing:
  "(\<not> (\<exists>r \<in> set outcomes. isl r) \<longrightarrow>
      retrieve_context S outcomes = (dedupeChunks S (concat (map projr outcomes)), None))
   \<and> ((\<exists>r \<in> set outcomes. isl r) \<longrightarrow>
      (\<exists>e. retrieve_context S outcomes = ([], Some e)))"
proof (intro conjI impI)
  assume "\<not> (\<exists>r \<in> set outcomes. isl r)"
  from Promise_all_fulfilled [OF this]
  show "retrieve_context S outcomes = (dedupeChunks S (concat (map projr outcomes)), None)"
    by (simp add: retrieve_context_def)
next
  assume "\<exists>r \<in> set outcomes. isl r"
  from Promise_all_rejected [OF this] obtain e where "Promise_all outcomes = Inl e" ..
  then show "\<exists>e. retrieve_context S outcomes = ([], Some e)"
    by (simp add: retrieve_context_def)
qed

theorem retrieve_context_all_or_nothing_witness:
  "retrieve_context String_of_integer
      [Inr [example_chunk (Some (js ''u1'')) (js ''a.md'') None],
       Inr [example_chunk (Some (js ''u1'')) (js ''a.md'') None,
            example_chunk (Some (js ''u2'')) (js ''a.md'') None]]
     = ([example_chunk (Some (js ''u1'')) (js ''a.md'') None,
         example_chunk (Some (js ''u2'')) (js ''a.md'') None], None)
   \<and> (\<exists>e. retrieve_context String_of_integer
      [Inr [example_chunk (Some (js ''u1'')) (js ''a.md'') None],
       Inl (Error (js ''timeout''))] = ([], Some e))"
proof -
  let ?c1 = "example_chunk (Some (js ''u1'')) (js ''a.md'') None"
  let ?c2 = "example_chunk (Some (js ''u2'')) (js ''a.md'') None"
  have d: "dedupeChunks String_of_integer [?c1, ?c1, ?c2] = [?c1, ?c2]"
    by (simp add: dedupeChunks_def chunk_key_def example_chunk_def js_def Let_def)
  have a: "retrieve_context String_of_integer [Inr [?c1], Inr [?c1, ?c2]] = ([?c1, ?c2], None)"
    using retrieve_context_all_or_nothing [of "[Inr [?c1], Inr [?c1, ?c2]]" String_of_integer] d
    by simp
  have b: "\<exists>e. retrieve_context String_of_integer [Inr [?c1], Inl (Error (js ''timeout''))]
             = ([], Some e)"
    using retrieve_context_all_or_nothing
      [of "[Inr [?c1], Inl (Error (js ''timeout''))]" String_of_integer]
    by simp
  from a b show ?thesis by blast
qed

text \<open>
  One query succeeds with a chunk and another fails: the specification keeps the chunk,
  the code continues with no context at all.
\<close>

theorem retrieve_context_partial_counterexample:
  "fst (retrieve_context String_of_integer
      [Inr [example_chunk (Some (js ''u1'')) (js ''a.md'') None],
       Inl (Error (js ''timeout''))])
   \<noteq> spec_partial_context String_of_integer
      [Inr [example_chunk (Some (js ''u1'')) (js ''a.md'') None],
       Inl (Error (js ''timeout''))]"
  by (simp add: retrieve_context_def spec_partial_context_def dedupeChunks_def Let_def)

subsection \<open>Properties of source-fragment construction\<close>

lemma Set_spread_props:
  "distinct seen \<Longrightarrow>
     distinct (Set_spread seen xs) \<and> set (Set_spread seen xs) = set seen \<union> set xs"
  by (induction xs arbitrary: seen) auto

lemma source_number_ok_iff:
  "(Number_isInteger n \<and> num_less (Finite 0) n \<and> num_le n (Finite (of_nat L)))
     \<longleftrightarrow> (\<exists>k. n = Finite (of_nat k) \<and> 1 \<le> k \<and> k \<le> L)"
proof (cases n)
  case (Finite q)
  show ?thesis
  proof
    assume h: "Number_isInteger n \<and> num_less (Finite 0) n \<and> num_le n (Finite (of_nat L))"
    with Finite have int: "of_int \<lfloor>q\<rfloor> = q" and pos: "0 < q" and le: "q \<le> of_nat L"
      by (simp_all add: Number_isInteger_def num_le_def)
    from pos have fpos: "0 < \<lfloor>q\<rfloor>" using int by (metis of_int_0_less_iff)
    then have k: "of_nat (nat \<lfloor>q\<rfloor>) = q" using int by simp
    have one: "1 \<le> nat \<lfloor>q\<rfloor>" using fpos by linarith
    from le k have "(of_nat (nat \<lfloor>q\<rfloor>) :: rat) \<le> of_nat L" by simp
    then have "nat \<lfloor>q\<rfloor> \<le> L" by (simp only: of_nat_le_iff)
    with k one Finite show "\<exists>k. n = Finite (of_nat k) \<and> 1 \<le> k \<and> k \<le> L" by metis
  next
    assume "\<exists>k. n = Finite (of_nat k) \<and> 1 \<le> k \<and> k \<le> L"
    then show "Number_isInteger n \<and> num_less (Finite 0) n \<and> num_le n (Finite (of_nat L))"
      by (auto simp: Number_isInteger_def num_le_def)
  qed
qed (auto simp: Number_isInteger_def)

lemma insert_sorted_nat:
  "insert_sorted (\<lambda>a b. num_minus a b) (Finite (of_nat x)) (map (\<lambda>k. Finite (of_nat k)) ys)
     = map (\<lambda>k. Finite (of_nat k)) (insort x ys)"
  by (induction ys) auto

lemma Array_sort_nat:
  "Array_sort (\<lambda>a b. num_minus a b) (map (\<lambda>k. Finite (of_nat k)) ks)
     = map (\<lambda>k. Finite (of_nat k)) (sort ks)"
  by (induction ks) (simp_all add: Array_sort_def sort_key_def insert_sorted_nat)

lemma number_nat_nat: "number_nat (Finite (of_nat k)) = k"
  by (simp add: number_nat_def)

lemma source_number_ok_nat:
  assumes "Number_isInteger n \<and> num_less (Finite 0) n \<and> num_le n (Finite (of_nat L))"
  shows "Finite (of_nat (number_nat n)) = n" and "1 \<le> number_nat n" and "number_nat n \<le> L"
proof -
  from assms obtain k where k: "n = Finite (of_nat k)" "1 \<le> k" "k \<le> L"
    using source_number_ok_iff [of n L] by blast
  then show "Finite (of_nat (number_nat n)) = n" and "1 \<le> number_nat n" and "number_nat n \<le> L"
    by (simp_all add: number_nat_nat)
qed

lemma normalizedNumbers_eq:
  "normalizedNumbers chunks used =
     map (\<lambda>k. Finite (of_nat k))
       (sorted_list_of_set {k. 1 \<le> k \<and> k \<le> length chunks \<and> Finite (of_nat k) \<in> set used})"
proof -
  let ?F = "\<lambda>k::nat. Finite (of_nat k)"
  let ?ok = "\<lambda>n. Number_isInteger n \<and> num_less (Finite 0) n
                     \<and> num_le n (Finite (of_nat (length chunks)))"
  let ?L = "filter ?ok (Set_spread [] used)"
  let ?ks = "map number_nat ?L"
  have inv: "?F (number_nat n) = n" if "?ok n" for n
    using source_number_ok_nat(1) [OF that] .
  have L: "map ?F ?ks = ?L"
    unfolding map_map by (rule map_idI) (simp add: inv)
  have dL: "distinct ?L" and sL: "set ?L = {n \<in> set used. ?ok n}"
    using Set_spread_props [of "[]" used] by auto
  have "inj_on number_nat (set ?L)"
  proof (rule inj_onI)
    fix a b
    assume a: "a \<in> set ?L" and b: "b \<in> set ?L" and eq: "number_nat a = number_nat b"
    from a have oka: "?ok a" by simp
    from b have okb: "?ok b" by simp
    have "a = ?F (number_nat a)" by (rule inv [OF oka, symmetric])
    also have "\<dots> = ?F (number_nat b)" by (simp only: eq)
    also have "\<dots> = b" by (rule inv [OF okb])
    finally show "a = b" .
  qed
  with dL have dks: "distinct ?ks" by (simp add: distinct_map)
  have sks: "set ?ks = {k. 1 \<le> k \<and> k \<le> length chunks \<and> ?F k \<in> set used}"
  proof (intro set_eqI iffI)
    fix k
    assume "k \<in> set ?ks"
    then obtain n where n: "n \<in> set ?L" and k: "k = number_nat n" by auto
    from n sL have ok: "?ok n" and u: "n \<in> set used" by auto
    from source_number_ok_nat [OF ok] k u
    show "k \<in> {k. 1 \<le> k \<and> k \<le> length chunks \<and> ?F k \<in> set used}" by simp
  next
    fix k
    assume "k \<in> {k. 1 \<le> k \<and> k \<le> length chunks \<and> ?F k \<in> set used}"
    then have r: "1 \<le> k" "k \<le> length chunks" and u: "?F k \<in> set used" by simp_all
    from r have "?ok (?F k)"
      using source_number_ok_iff [of "?F k" "length chunks"] by blast
    with u sL have "?F k \<in> set ?L" by blast
    then have "number_nat (?F k) \<in> number_nat ` set ?L" by (rule imageI)
    then show "k \<in> set ?ks" by (simp only: number_nat_nat set_map)
  qed
  have "sorted_list_of_set (set ?ks) = sort (remdups ?ks)"
    by (rule sorted_list_of_set_sort_remdups)
  then have "sort ?ks = sorted_list_of_set (set ?ks)"
    by (simp only: distinct_remdups_id [OF dks])
  then have "sort ?ks
      = sorted_list_of_set {k. 1 \<le> k \<and> k \<le> length chunks \<and> ?F k \<in> set used}"
    by (simp only: sks)
  moreover have "normalizedNumbers chunks used = map ?F (sort ?ks)"
    unfolding normalizedNumbers_def
    by (subst L [symmetric]) (rule Array_sort_nat)
  ultimately show ?thesis by simp
qed

lemma array_get_nat: "j < length xs \<Longrightarrow> array_get xs (Finite (of_nat j)) = Some (xs ! j)"
  by (simp add: array_get_def)

lemma num_minus_one: "1 \<le> k \<Longrightarrow> num_minus (Finite (of_nat k)) (Finite 1) = Finite (of_nat (k - 1))"
  by (simp add: of_nat_diff)

lemma array_get_in_range:
  assumes "1 \<le> k" and "k \<le> length xs"
  shows "array_get xs (num_minus (Finite (of_nat k)) (Finite 1)) = Some (xs ! (k - 1))"
proof -
  from assms have "k - 1 < length xs" by simp
  from array_get_nat [OF this] show ?thesis
    by (simp only: num_minus_one [OF assms(1)])
qed

lemma map_throwing_total:
  assumes "\<And>x. x \<in> set xs \<Longrightarrow> f x = Inr (g x)"
  shows "map_throwing f xs = Inr (map g xs)"
  using assms
proof (induction xs)
  case Nil
  show ?case by simp
next
  case (Cons a xs)
  have a: "f a = Inr (g a)" by (rule Cons.prems) simp
  have "map_throwing f xs = Inr (map g xs)" by (rule Cons.IH) (simp add: Cons.prems)
  with a show ?case by simp
qed

lemma fragments_of_numbers:
  "getSourceFragmentsByNumber S chunks numbers =
     Inr (map (\<lambda>k. make_fragment S (Finite (of_nat k)) (chunks ! (k - 1)))
       (sorted_list_of_set {k. 1 \<le> k \<and> k \<le> length chunks \<and> Finite (of_nat k) \<in> set numbers}))"
proof -
  let ?A = "{k. 1 \<le> k \<and> k \<le> length chunks \<and> Finite (of_nat k) \<in> set numbers}"
  let ?F = "\<lambda>k::nat. Finite (of_nat k)"
  have "?A \<subseteq> {..length chunks}" by auto
  then have fin: "finite ?A" by (rule finite_subset) simp
  have "map_throwing
       (\<lambda>sourceNumber.
          case array_get chunks (num_minus sourceNumber (Finite 1)) of
            None \<Rightarrow> Inl TypeError
          | Some chunk \<Rightarrow> Inr (make_fragment S sourceNumber chunk))
       (map ?F (sorted_list_of_set ?A))
     = Inr (map (\<lambda>n. make_fragment S n (chunks ! (number_nat n - 1)))
         (map ?F (sorted_list_of_set ?A)))"
  proof (rule map_throwing_total)
    fix x
    assume "x \<in> set (map ?F (sorted_list_of_set ?A))"
    with fin obtain k where x: "x = ?F k" and k: "1 \<le> k" "k \<le> length chunks" by auto
    from array_get_in_range [OF k] x
    show "(case array_get chunks (num_minus x (Finite 1)) of
            None \<Rightarrow> Inl TypeError
          | Some chunk \<Rightarrow> Inr (make_fragment S x chunk))
        = Inr (make_fragment S x (chunks ! (number_nat x - 1)))"
      by (simp add: number_nat_nat)
  qed
  then show ?thesis
    by (simp add: getSourceFragmentsByNumber_def normalizedNumbers_eq [of chunks numbers]
          comp_def number_nat_nat)
qed

lemma post_sourceFragments_returns: "\<exists>fragments. post_sourceFragments S chunks parsedFinal = Inr fragments"
  by (simp add: post_sourceFragments_def fragments_of_numbers)

text \<open>
  C10. For every list of retrieved chunks and every list of used source numbers, the
  numbers that survive are exactly the integers from 1 to the number of chunks that
  occur in the list, each once and in ascending order; \<^verbatim>\<open>getSourceFragmentsByNumber\<close>
  returns (no access \<^verbatim>\<open>chunks[sourceNumber - 1]\<close> is out of bounds, so no TypeError is
  thrown) with one fragment per surviving number, built from the chunk at that position.
  The request handler passes the numbers of the final parse when that parse is ok and
  no number otherwise, and so gets the fragments of those numbers, or none.
\<close>

theorem getSourceFragmentsByNumber_in_bounds:
  "normalizedNumbers chunks used =
     map (\<lambda>k. Finite (of_nat k))
       (sorted_list_of_set {k. 1 \<le> k \<and> k \<le> length chunks \<and> Finite (of_nat k) \<in> set used})
   \<and> getSourceFragmentsByNumber S chunks used =
     Inr (map (\<lambda>k. make_fragment S (Finite (of_nat k)) (chunks ! (k - 1)))
       (sorted_list_of_set {k. 1 \<le> k \<and> k \<le> length chunks \<and> Finite (of_nat k) \<in> set used}))
   \<and> post_sourceFragments S chunks parsedFinal =
     Inr (map (\<lambda>k. make_fragment S (Finite (of_nat k)) (chunks ! (k - 1)))
       (sorted_list_of_set {k. 1 \<le> k \<and> k \<le> length chunks \<and> ok parsedFinal
          \<and> Finite (of_nat k) \<in> set (usedSourceNumbers parsedFinal)}))"
proof -
  have general: "getSourceFragmentsByNumber S chunks numbers =
     Inr (map (\<lambda>k. make_fragment S (Finite (of_nat k)) (chunks ! (k - 1)))
       (sorted_list_of_set {k. 1 \<le> k \<and> k \<le> length chunks \<and> Finite (of_nat k) \<in> set numbers}))"
    for numbers
    by (rule fragments_of_numbers)
  have gate: "{k. 1 \<le> k \<and> k \<le> length chunks
        \<and> Finite (of_nat k) \<in> set (if ok parsedFinal then usedSourceNumbers parsedFinal else [])}
      = {k. 1 \<le> k \<and> k \<le> length chunks \<and> ok parsedFinal
          \<and> Finite (of_nat k) \<in> set (usedSourceNumbers parsedFinal)}"
    by auto
  have "post_sourceFragments S chunks parsedFinal =
     Inr (map (\<lambda>k. make_fragment S (Finite (of_nat k)) (chunks ! (k - 1)))
       (sorted_list_of_set {k. 1 \<le> k \<and> k \<le> length chunks \<and> ok parsedFinal
          \<and> Finite (of_nat k) \<in> set (usedSourceNumbers parsedFinal)}))"
    unfolding post_sourceFragments_def general gate ..
  with normalizedNumbers_eq [of chunks used] general [of used] show ?thesis by blast
qed

text \<open>
  An example with three chunks: the numbers \<open>3, 1.5, 0, -2, 7, 3, 1\<close>, NaN and infinity
  leave the sources 1 and 3.
\<close>

lemma floor_halves: "\<lfloor>(3::rat) / 2\<rfloor> = 1" "\<lfloor>(1::rat) / 2\<rfloor> = 0"
  by (simp_all add: floor_eq_iff)

lemma getSourceFragmentsByNumber_example:
  "normalizedNumbers
     [example_chunk None (js ''a.md'') None, example_chunk None (js ''b.md'') None,
      example_chunk None (js ''c.md'') None]
     [Finite 3, Finite (3 / 2), Finite 0, Finite (- 2), Finite 7, Finite 3, Finite 1, NaN, PosInfinity]
     = [Finite 1, Finite 3]"
  "map title (projr (getSourceFragmentsByNumber String_of_integer
     [example_chunk None (js ''a.md'') None, example_chunk None (js ''b.md'') None,
      example_chunk None (js ''c.md'') None]
     [Finite 3, Finite (3 / 2), Finite 0, Finite (- 2), Finite 7, Finite 3, Finite 1, NaN, PosInfinity]))
     = [js ''[1] a.md'', js ''[3] c.md'']"
  by (simp_all add: getSourceFragmentsByNumber_def normalizedNumbers_def Array_sort_def
        Number_isInteger_def num_le_def array_get_def make_fragment_def metadata_trimmed_def
        metadata_prop_def example_chunk_def String_of_integer_def decimal_digit js_def
        floor_halves del: divide_eq_eq_numeral1 eq_divide_eq_numeral1)

subsection \<open>Properties of the planner parser\<close>

lemma lastIndexOf_char_less: "lastIndexOf_char s ch = Some i \<Longrightarrow> i < length s"
  by (induction s arbitrary: i) (auto split: option.splits if_splits)

lemma extractJsonObject_nonempty: "extractJsonObject raw \<noteq> Some []"
proof
  assume "extractJsonObject raw = Some []"
  then obtain a b where "lastIndexOf_char raw 0x7D = Some b" "a < b" "length raw \<le> a"
    by (auto simp: extractJsonObject_def Let_def slice_def
          split: option.splits if_splits prod.splits)
  with lastIndexOf_char_less [of raw "0x7D" b] show False by simp
qed

lemma extractJsonObject_examples:
  "extractJsonObject (js ''no plan today'') = None"
  "extractJsonObject (js ''Plan: '' @ planner_text_partial @ js '' done'') = Some planner_text_partial"
  "extractJsonObject (js ''```JSON'' @ [newline] @ planner_text_partial @ [newline] @ js ''``` {x}'')
     = Some planner_text_partial"
  "extractJsonObject (js ''```json null ```'') = Some (js ''null'')"
  "extractJsonObject (js ''}{'') = None"
  by (simp_all add: extractJsonObject_def js_def planner_text_partial_def quoted_def dquote_def
        newline_def fence_def prefix_ci_def toUpperAscii_def isWhiteSpace_def slice_def)

text \<open>
  C6, as the code has it. For every raw planner text: when no JSON text is found in it,
  when \<^verbatim>\<open>JSON.parse\<close> throws, or when the text parses to \<^verbatim>\<open>null\<close>, the result is the full
  conservative default plan. When the text parses to any other value, each field is
  taken on its own: a boolean field keeps its parsed value and takes its default
  (\<^verbatim>\<open>true\<close>, or \<^verbatim>\<open>false\<close> for \<^verbatim>\<open>shouldShortCircuit\<close>) only when it is itself missing or
  not a boolean, \<^verbatim>\<open>directResponse\<close> is the trimmed string or the empty string,
  and \<^verbatim>\<open>ragQueries\<close> is the list of its non-blank strings, or the question alone when
  there is none.
\<close>

theorem parsePlannerOutput_defaults:
  "((extractJsonObject raw = None
      \<or> (\<exists>t. extractJsonObject raw = Some t \<and> (P t = None \<or> P t = Some JNull)))
     \<longrightarrow> parsePlannerOutput P raw q = fallback_plan q)
   \<and> (\<forall>t v. extractJsonObject raw = Some t \<and> P t = Some v \<and> v \<noteq> JNull \<longrightarrow>
        parsePlannerOutput P raw q =
          \<lparr> needsCode = boolean_or (get_prop v (js ''needsCode'')) True,
            isHard = boolean_or (get_prop v (js ''isHard'')) True,
            needsConversationContext =
              boolean_or (get_prop v (js ''needsConversationContext'')) True,
            ragQueries =
              (case get_prop v (js ''ragQueries'') of
                 Some (JArr qs) \<Rightarrow>
                   if nonblank_strings qs \<noteq> [] then nonblank_strings qs else [q]
               | _ \<Rightarrow> [q]),
            shouldShortCircuit = boolean_or (get_prop v (js ''shouldShortCircuit'')) False,
            directResponse =
              (case get_prop v (js ''directResponse'') of Some (JStr s) \<Rightarrow> trim s | _ \<Rightarrow> []) \<rparr>)"
proof (intro conjI impI allI)
  assume "extractJsonObject raw = None
      \<or> (\<exists>t. extractJsonObject raw = Some t \<and> (P t = None \<or> P t = Some JNull))"
  then show "parsePlannerOutput P raw q = fallback_plan q"
    by (auto simp: parsePlannerOutput_def)
next
  fix t v
  assume h: "extractJsonObject raw = Some t \<and> P t = Some v \<and> v \<noteq> JNull"
  have ne: "t \<noteq> []"
  proof
    assume "t = []"
    with h have "extractJsonObject raw = Some []" by simp
    then show False by (simp add: extractJsonObject_nonempty)
  qed
  from h ne show "parsePlannerOutput P raw q =
          \<lparr> needsCode = boolean_or (get_prop v (js ''needsCode'')) True,
            isHard = boolean_or (get_prop v (js ''isHard'')) True,
            needsConversationContext =
              boolean_or (get_prop v (js ''needsConversationContext'')) True,
            ragQueries =
              (case get_prop v (js ''ragQueries'') of
                 Some (JArr qs) \<Rightarrow>
                   if nonblank_strings qs \<noteq> [] then nonblank_strings qs else [q]
               | _ \<Rightarrow> [q]),
            shouldShortCircuit = boolean_or (get_prop v (js ''shouldShortCircuit'')) False,
            directResponse =
              (case get_prop v (js ''directResponse'') of Some (JStr s) \<Rightarrow> trim s | _ \<Rightarrow> []) \<rparr>"
    by (cases v) (auto simp: parsePlannerOutput_def Let_def split: option.splits json.splits)
qed

theorem parsePlannerOutput_defaults_witness:
  "parsePlannerOutput example_planner_parse (js ''no plan today'') (js ''hi'') = fallback_plan (js ''hi'')
   \<and> parsePlannerOutput example_planner_parse (js ''```json null ```'') (js ''hi'')
       = fallback_plan (js ''hi'')
   \<and> parsePlannerOutput example_planner_parse planner_text_partial (js ''hi'')
       = \<lparr> needsCode = False, isHard = True, needsConversationContext = True,
           ragQueries = [js ''hi''], shouldShortCircuit = False, directResponse = [] \<rparr>"
proof -
  note inst = parsePlannerOutput_defaults [of _ example_planner_parse "js ''hi''"]
  have e1: "extractJsonObject (js ''no plan today'') = None"
    by (rule extractJsonObject_examples)
  have e2: "extractJsonObject (js ''```json null ```'') = Some (js ''null'')"
    by (rule extractJsonObject_examples)
  have e3: "extractJsonObject planner_text_partial = Some planner_text_partial"
    by (simp add: extractJsonObject_def js_def planner_text_partial_def quoted_def dquote_def
        fence_def prefix_ci_def toUpperAscii_def isWhiteSpace_def slice_def)
  have p2: "example_planner_parse (js ''null'') = Some JNull"
    by (simp add: example_planner_parse_def planner_text_partial_def js_def quoted_def)
  have p3: "example_planner_parse planner_text_partial = Some (JObj [(js ''needsCode'', JBool False)])"
    by (simp add: example_planner_parse_def)
  have a: "parsePlannerOutput example_planner_parse (js ''no plan today'') (js ''hi'')
      = fallback_plan (js ''hi'')"
    using inst [of "js ''no plan today''"] e1 by blast
  have b: "parsePlannerOutput example_planner_parse (js ''```json null ```'') (js ''hi'')
      = fallback_plan (js ''hi'')"
    using inst [of "js ''```json null ```''"] e2 p2 by blast
  have "parsePlannerOutput example_planner_parse planner_text_partial (js ''hi'') =
          \<lparr> needsCode = boolean_or (get_prop (JObj [(js ''needsCode'', JBool False)]) (js ''needsCode'')) True,
            isHard = boolean_or (get_prop (JObj [(js ''needsCode'', JBool False)]) (js ''isHard'')) True,
            needsConversationContext =
              boolean_or (get_prop (JObj [(js ''needsCode'', JBool False)]) (js ''needsConversationContext'')) True,
            ragQueries =
              (case get_prop (JObj [(js ''needsCode'', JBool False)]) (js ''ragQueries'') of
                 Some (JArr qs) \<Rightarrow>
                   if nonblank_strings qs \<noteq> [] then nonblank_strings qs else [js ''hi'']
               | _ \<Rightarrow> [js ''hi'']),
            shouldShortCircuit = boolean_or (get_prop (JObj [(js ''needsCode'', JBool False)]) (js ''shouldShortCircuit'')) False,
            directResponse =
              (case get_prop (JObj [(js ''needsCode'', JBool False)]) (js ''directResponse'') of Some (JStr s) \<Rightarrow> trim s | _ \<Rightarrow> []) \<rparr>"
    using inst [of planner_text_partial] e3 p3 by blast
  then have c: "parsePlannerOutput example_planner_parse planner_text_partial (js ''hi'')
       = \<lparr> needsCode = False, isHard = True, needsConversationContext = True,
           ragQueries = [js ''hi''], shouldShortCircuit = False, directResponse = [] \<rparr>"
    by (simp add: boolean_or_def js_def)
  from a b c show ?thesis by blast
qed

text \<open>
  The planner answers \<^verbatim>\<open>{"needsCode":false}\<close>: every other field is missing, and the
  result is not the default plan, it keeps the parsed \<^verbatim>\<open>needsCode = false\<close>.
\<close>

theorem parsePlannerOutput_partial_counterexample:
  "extractJsonObject planner_text_partial = Some planner_text_partial
   \<and> example_planner_parse planner_text_partial = Some (JObj [(js ''needsCode'', JBool False)])
   \<and> get_prop (JObj [(js ''needsCode'', JBool False)]) (js ''isHard'') = None
   \<and> needsCode (parsePlannerOutput example_planner_parse planner_text_partial (js ''hi'')) = False
   \<and> parsePlannerOutput example_planner_parse planner_text_partial (js ''hi'')
       \<noteq> fallback_plan (js ''hi'')"
proof -
  have e3: "extractJsonObject planner_text_partial = Some planner_text_partial"
    by (simp add: extractJsonObject_def js_def planner_text_partial_def quoted_def dquote_def
        fence_def prefix_ci_def toUpperAscii_def isWhiteSpace_def slice_def)
  have p3: "example_planner_parse planner_text_partial = Some (JObj [(js ''needsCode'', JBool False)])"
    by (simp add: example_planner_parse_def)
  have ne: "planner_text_partial \<noteq> []"
    by (simp add: planner_text_partial_def js_def)
  have m: "get_prop (JObj [(js ''needsCode'', JBool False)]) (js ''isHard'') = None"
    by (simp add: js_def)
  have n: "needsCode (parsePlannerOutput example_planner_parse planner_text_partial (js ''hi'')) = False"
    by (simp add: parsePlannerOutput_def e3 p3 ne boolean_or_def Let_def)
  then have "parsePlannerOutput example_planner_parse planner_text_partial (js ''hi'')
       \<noteq> fallback_plan (js ''hi'')"
    by (auto simp: fallback_plan_def)
  with e3 p3 m n show ?thesis by blast
qed

subsection \<open>Properties of the truncation retry\<close>

text \<open>
  What the retry does in general: a first answer that ends with \<^verbatim>\<open>MAX_TOKENS\<close> is
  followed by exactly one more request, whose budget is the larger of the configured
  budget and 4096, and the text of the second answer is the one that goes on.
\<close>

lemma final_generation_retry:
  assumes "generate
      \<lparr> model = m, systemInstruction = s, userPrompt = u, temperature = 2 / 10,
        maxOutputTokens = budget, responseMimeType = Some (js ''application/json'') \<rparr> w
        = (Inr r1, w1)"
    and "finishReason r1 = Some (js ''MAX_TOKENS'')"
  shows "\<exists>retry. fst (snd (final_generation generate m s u budget w))
           = [\<lparr> model = m, systemInstruction = s, userPrompt = u, temperature = 2 / 10,
                maxOutputTokens = budget, responseMimeType = Some (js ''application/json'') \<rparr>,
              retry]
         \<and> maxOutputTokens retry = max budget 4096
         \<and> fst (final_generation generate m s u budget w)
             = (case fst (generate retry w1) of Inl e \<Rightarrow> Inl e | Inr r2 \<Rightarrow> Inr (result_text r2))"
  using assms
  by (auto simp: final_generation_def Let_def split: prod.splits sum.splits)

lemma final_generation_no_retry:
  assumes "generate
      \<lparr> model = m, systemInstruction = s, userPrompt = u, temperature = 2 / 10,
        maxOutputTokens = budget, responseMimeType = Some (js ''application/json'') \<rparr> w
        = (Inr r1, w1)"
    and "finishReason r1 \<noteq> Some (js ''MAX_TOKENS'')"
  shows "final_generation generate m s u budget w
           = (Inr (result_text r1),
              [\<lparr> model = m, systemInstruction = s, userPrompt = u, temperature = 2 / 10,
                 maxOutputTokens = budget, responseMimeType = Some (js ''application/json'') \<rparr>],
              w1)"
  using assms by (simp add: final_generation_def Let_def)

text \<open>
  C5 at a configured budget of 8192 tokens, with a first answer cut off by
  \<^verbatim>\<open>MAX_TOKENS\<close>: one retry is issued and the second answer's text goes on to parsing,
  but the retry's budget is 8192 again, not a larger one.
\<close>

theorem final_generation_retry_same_budget:
  "fst (final_generation truncating_backend (js ''gemini-2.5-pro'') (js ''system'') (js ''question'') 8192 0)
     = Inr (js ''second'')
   \<and> map maxOutputTokens
        (fst (snd (final_generation truncating_backend (js ''gemini-2.5-pro'') (js ''system'')
           (js ''question'') 8192 0)))
     = [8192, 8192]
   \<and> snd (snd (final_generation truncating_backend (js ''gemini-2.5-pro'') (js ''system'')
           (js ''question'') 8192 0)) = 2"
  by (simp add: final_generation_def truncating_backend_def Let_def)

subsection \<open>Properties of the fallback chain\<close>

lemma parseFinalModelOutput_ok: "ok (parseFinalModelOutput P raw) \<longleftrightarrow> answer (parseFinalModelOutput P raw) \<noteq> []"
  by (auto simp: parseFinalModelOutput_def parse_failed_def Let_def
        split: option.splits json.splits)

lemma apology_nonempty: "apology \<noteq> []"
  by (simp add: apology_def js_def)

lemma answer_stage_parse:
  "\<exists>t. fst (snd (answer_stage P generate m raw w)) = parseFinalModelOutput P t"
  by (auto simp: answer_stage_def Let_def split: prod.splits sum.splits)

lemma answer_stage_visible:
  "fst (answer_stage P generate m raw w)
     = or_else (answer (fst (snd (answer_stage P generate m raw w))))
         (or_else (extractAnswerFallbackText raw) apology)"
  by (auto simp: answer_stage_def Let_def split: prod.splits sum.splits)

subsection \<open>Properties of the segmentation\<close>

lemma concat_nonempty: "concat (filter (\<lambda>p. length p > 0) xss) = concat xss"
  by (induction xss) simp_all

lemma concat_concat_map: "concat (concat (map f xs)) = concat (map (\<lambda>x. concat (f x)) xs)"
  by (induction xs) simp_all

lemma concat_split_newline_runs: "concat (split_newline_runs s) = s"
proof (induction s rule: split_newline_runs.induct)
  case (1 s)
  show ?case
  proof (cases "dropWhile (\<lambda>c. c \<noteq> newline) s")
    case Nil
    show ?thesis
      by (subst split_newline_runs.simps) (simp only: Nil list.case concat.simps append_Nil2)
  next
    case (Cons r rs)
    have "concat (split_newline_runs s)
        = takeWhile (\<lambda>c. c \<noteq> newline) s
            @ (takeWhile (\<lambda>c. c = newline) (r # rs)
                @ concat (split_newline_runs (dropWhile (\<lambda>c. c = newline) (r # rs))))"
      by (subst split_newline_runs.simps) (simp only: Cons list.case concat.simps)
    also have "\<dots> = takeWhile (\<lambda>c. c \<noteq> newline) s
            @ (takeWhile (\<lambda>c. c = newline) (r # rs) @ dropWhile (\<lambda>c. c = newline) (r # rs))"
      using "1.IH" [OF Cons] by simp
    also have "\<dots> = takeWhile (\<lambda>c. c \<noteq> newline) s @ dropWhile (\<lambda>c. c \<noteq> newline) s"
      by (simp only: takeWhile_dropWhile_id Cons)
    finally show ?thesis by simp
  qed
qed

lemma split_newline_runs_parts:
  "p \<in> set (split_newline_runs s) \<Longrightarrow> (\<forall>c \<in> set p. c = newline) \<or> newline \<notin> set p"
proof (induction s rule: split_newline_runs.induct)
  case (1 s)
  show ?case
  proof (cases "dropWhile (\<lambda>c. c \<noteq> newline) s")
    case Nil
    from "1.prems" have "p \<in> set [s]"
      by (subst (asm) split_newline_runs.simps) (simp only: Nil list.case)
    then have "p = s" by simp
    moreover from Nil have "\<forall>c \<in> set s. c \<noteq> newline" by simp
    ultimately show ?thesis by blast
  next
    case (Cons r rs)
    from "1.prems" have "p \<in> set (takeWhile (\<lambda>c. c \<noteq> newline) s
        # takeWhile (\<lambda>c. c = newline) (r # rs)
        # split_newline_runs (dropWhile (\<lambda>c. c = newline) (r # rs)))"
      by (subst (asm) split_newline_runs.simps) (simp only: Cons list.case)
    then consider "p = takeWhile (\<lambda>c. c \<noteq> newline) s"
      | "p = takeWhile (\<lambda>c. c = newline) (r # rs)"
      | "p \<in> set (split_newline_runs (dropWhile (\<lambda>c. c = newline) (r # rs)))"
      by auto
    then show ?thesis
    proof cases
      case 1
      then have "newline \<notin> set p" using set_takeWhileD by fastforce
      then show ?thesis ..
    next
      case 2
      then have "\<forall>c \<in> set p. c = newline" using set_takeWhileD by fastforce
      then show ?thesis ..
    next
      case 3
      from "1.IH" [OF Cons 3] show ?thesis .
    qed
  qed
qed

lemma split_newline_runs_subset:
  assumes "p \<in> set (split_newline_runs s)"
  shows "set p \<subseteq> set s"
proof -
  from assms have "set p \<subseteq> set (concat (split_newline_runs s))" by auto
  then show ?thesis by (simp only: concat_split_newline_runs)
qed

lemma takeWhile_take_prefix:
  "takeWhile P (take n xs) = take (length (takeWhile P (take n xs))) xs"
proof -
  have "prefix (takeWhile P (take n xs)) (take n xs)" by (rule takeWhile_is_prefix)
  also have "prefix (take n xs) xs" by (rule take_is_prefix)
  finally show ?thesis by (metis append_eq_conv_conj prefix_def)
qed

lemma concat_dot_matches: "concat (dot_matches s) = filter (\<lambda>x. \<not> isLineTerminator x) s"
proof (induction s rule: dot_matches.induct)
  case 1
  show ?case by (simp add: dot_matches.simps)
next
  case (2 c cs)
  show ?case
  proof (cases "isLineTerminator c")
    case True
    with "2.IH"(1) show ?thesis by (simp add: dot_matches.simps)
  next
    case False
    let ?m = "takeWhile (\<lambda>x. \<not> isLineTerminator x) (take 120 (c # cs))"
    have m: "?m = take (length ?m) (c # cs)" by (rule takeWhile_take_prefix)
    have fm: "filter (\<lambda>x. \<not> isLineTerminator x) ?m = ?m"
      by (rule filter_True) (auto dest: set_takeWhileD)
    have "concat (dot_matches (c # cs)) = ?m @ concat (dot_matches (drop (length ?m) (c # cs)))"
      using False by (subst dot_matches.simps) simp
    also have "\<dots> = ?m @ filter (\<lambda>x. \<not> isLineTerminator x) (drop (length ?m) (c # cs))"
      using "2.IH"(2) [OF False] by simp
    also have "\<dots> = filter (\<lambda>x. \<not> isLineTerminator x) (?m @ drop (length ?m) (c # cs))"
      by (simp only: filter_append fm)
    also have "?m @ drop (length ?m) (c # cs) = c # cs"
      by (subst m) (rule append_take_drop_id)
    finally show ?thesis .
  qed
qed

lemma newlines_trim_empty: "\<forall>c \<in> set p. c = newline \<Longrightarrow> trim p = []"
proof -
  assume a: "\<forall>c \<in> set p. c = newline"
  have ws: "isWhiteSpace newline" by (simp add: isWhiteSpace_def newline_def)
  from a ws have "\<forall>c \<in> set (rev p). isWhiteSpace c" by auto
  then have "dropWhile isWhiteSpace (rev p) = []"
    unfolding dropWhile_eq_Nil_conv .
  then show ?thesis unfolding trim_def by (simp only: rev.simps dropWhile.simps)
qed

lemma isLineTerminator_iff:
  "isLineTerminator c \<longleftrightarrow> c = newline \<or> c = 0xD \<or> c = 0x2028 \<or> c = 0x2029"
  by (simp add: isLineTerminator_def newline_def)

lemma concat_splitForStream:
  assumes "\<forall>c \<in> set T. c \<noteq> 0xD \<and> c \<noteq> 0x2028 \<and> c \<noteq> 0x2029"
  shows "concat (splitForStream T) = T"
proof -
  let ?f = "\<lambda>part. if trim part = [] then [part]
                     else (case dot_matches part of [] \<Rightarrow> [part] | m # ms \<Rightarrow> m # ms)"
  have part: "concat (?f p) = p" if p: "p \<in> set (split_newline_runs T)" for p
  proof (cases "trim p = []")
    case True
    then show ?thesis by simp
  next
    case False
    with newlines_trim_empty [of p] split_newline_runs_parts [OF p]
    have "newline \<notin> set p" by blast
    moreover from split_newline_runs_subset [OF p] assms
    have "\<forall>c \<in> set p. c \<noteq> 0xD \<and> c \<noteq> 0x2028 \<and> c \<noteq> 0x2029" by blast
    ultimately have "\<forall>c \<in> set p. \<not> isLineTerminator c"
      by (auto simp: isLineTerminator_iff)
    then have "filter (\<lambda>x. \<not> isLineTerminator x) p = p" by (intro filter_True) simp
    then have c: "concat (dot_matches p) = p" by (simp only: concat_dot_matches)
    show ?thesis
    proof (cases "dot_matches p")
      case Nil
      with False show ?thesis by simp
    next
      case (Cons m ms)
      with False c show ?thesis by simp
    qed
  qed
  have "concat (splitForStream T) = concat (concat (map ?f (split_newline_runs T)))"
    unfolding splitForStream_def by (rule concat_nonempty)
  also have "\<dots> = concat (map (\<lambda>p. concat (?f p)) (split_newline_runs T))"
    by (rule concat_concat_map)
  also have "\<dots> = concat (map (\<lambda>p. p) (split_newline_runs T))"
    using part by (intro arg_cong [where f = concat] map_cong refl) blast
  also have "\<dots> = T" by (simp add: concat_split_newline_runs)
  finally show ?thesis .
qed

lemma splitForStream_subset:
  assumes "\<forall>c \<in> set T. c \<noteq> 0xD \<and> c \<noteq> 0x2028 \<and> c \<noteq> 0x2029"
    and "seg \<in> set (splitForStream T)"
  shows "set seg \<subseteq> set T"
proof -
  from assms(2) have "set seg \<subseteq> set (concat (splitForStream T))" by auto
  then show ?thesis by (simp only: concat_splitForStream [OF assms(1)])
qed

lemma splitForStream_examples:
  "splitForStream (js ''ab'' @ [newline, newline] @ js ''c'') = [js ''ab'', [newline, newline], js ''c'']"
  "splitForStream (js ''a'' @ [0xD] @ js ''b'') = [js ''a'', js ''b'']"
  "splitForStream [newline] = [[newline]]"
  "splitForStream [] = []"
  by (simp_all add: splitForStream_def split_newline_runs.simps dot_matches.simps js_def
        newline_def trim_def isWhiteSpace_def isLineTerminator_def)

lemma splitForStream_nonempty: "seg \<in> set (splitForStream T) \<Longrightarrow> seg \<noteq> []"
  by (auto simp: splitForStream_def)

subsection \<open>Properties of the transport\<close>

lemma toWellFormed_Cons: "\<not> isSurrogate a \<Longrightarrow> toWellFormed (a # xs) = a # toWellFormed xs"
  by (cases xs) (simp_all add: isSurrogate_def)

lemma toWellFormed_plain: "\<forall>c \<in> set s. \<not> isSurrogate c \<Longrightarrow> toWellFormed s = s"
  by (induction s) (simp_all add: toWellFormed_Cons)

lemma toWellFormed_plain_append:
  "\<forall>c \<in> set a. \<not> isSurrogate c \<Longrightarrow> toWellFormed (a @ b) = a @ toWellFormed b"
  by (induction a) (simp_all add: toWellFormed_Cons)

lemma toWellFormed_append_plain:
  "\<forall>c \<in> set e. \<not> isSurrogate c \<Longrightarrow> toWellFormed (s @ e) = toWellFormed s @ e"
proof (induction s rule: toWellFormed.induct)
  case (1 a b cs)
  then show ?case by simp
next
  case (2 a)
  then have e: "toWellFormed e = e" by (intro toWellFormed_plain)
  from 2 have "e \<noteq> [] \<longrightarrow> \<not> isLowSurrogate (hd e)" by (auto simp: isSurrogate_def)
  with e show ?case by (cases e) auto
next
  case 3
  then show ?case by (simp add: toWellFormed_plain)
qed

lemma encode_decode_plain:
  assumes "\<forall>c \<in> set s. \<not> isSurrogate c \<and> c \<noteq> 0xFEFF"
  shows "encode_decode s = s"
proof -
  from assms have "toWellFormed s = s" by (intro toWellFormed_plain) simp
  with assms show ?thesis by (cases s) (simp_all add: encode_decode_def)
qed

lemma sentinel_plain:
  "\<forall>c \<in> set RAG_CONTEXT_START. \<not> isSurrogate c"
  "\<forall>c \<in> set RAG_CONTEXT_END. \<not> isSurrogate c"
  "newline \<notin> set RAG_CONTEXT_START"
  "RAG_CONTEXT_START \<noteq> []"
  "RAG_CONTEXT_END \<noteq> []"
  "length RAG_CONTEXT_START = 20"
  by (simp_all add: RAG_CONTEXT_START_def RAG_CONTEXT_END_def js_def isSurrogate_def
        isHighSurrogate_def isLowSurrogate_def newline_def)

lemma encode_decode_marker:
  assumes "toWellFormed J = J"
  shows "encode_decode ([newline, newline] @ RAG_CONTEXT_START @ J @ RAG_CONTEXT_END)
           = [newline, newline] @ RAG_CONTEXT_START @ J @ RAG_CONTEXT_END"
proof -
  have nl: "\<not> isSurrogate newline"
    by (simp add: isSurrogate_def isHighSurrogate_def isLowSurrogate_def newline_def)
  have "toWellFormed (([newline, newline] @ RAG_CONTEXT_START) @ (J @ RAG_CONTEXT_END))
          = ([newline, newline] @ RAG_CONTEXT_START) @ toWellFormed (J @ RAG_CONTEXT_END)"
    using nl sentinel_plain(1) by (intro toWellFormed_plain_append) auto
  also have "toWellFormed (J @ RAG_CONTEXT_END) = toWellFormed J @ RAG_CONTEXT_END"
    using sentinel_plain(2) by (rule toWellFormed_append_plain)
  finally have "toWellFormed ([newline, newline] @ RAG_CONTEXT_START @ J @ RAG_CONTEXT_END)
          = [newline, newline] @ RAG_CONTEXT_START @ J @ RAG_CONTEXT_END"
    using assms by simp
  then show ?thesis
    by (simp add: encode_decode_def newline_def)
qed

lemma received_stream:
  assumes "\<forall>c \<in> set T. c \<noteq> 0xD \<and> c \<noteq> 0x2028 \<and> c \<noteq> 0x2029 \<and> \<not> isSurrogate c \<and> c \<noteq> 0xFEFF"
    and "toWellFormed (S (metadata_json F)) = S (metadata_json F)"
  shows "received (stream_chunks S T F)
           = T @ [newline, newline] @ RAG_CONTEXT_START @ S (metadata_json F) @ RAG_CONTEXT_END"
proof -
  from assms(1) have lt: "\<forall>c \<in> set T. c \<noteq> 0xD \<and> c \<noteq> 0x2028 \<and> c \<noteq> 0x2029" by blast
  have seg: "encode_decode seg = seg" if "seg \<in> set (splitForStream T)" for seg
  proof (rule encode_decode_plain)
    from splitForStream_subset [OF lt that] assms(1)
    show "\<forall>c \<in> set seg. \<not> isSurrogate c \<and> c \<noteq> 0xFEFF" by blast
  qed
  have "map encode_decode (splitForStream T) = map (\<lambda>x. x) (splitForStream T)"
    using seg by (intro map_cong refl) blast
  then have "concat (map encode_decode (splitForStream T)) = T"
    using concat_splitForStream [OF lt] by simp
  then show ?thesis
    using encode_decode_marker [OF assms(2)]
    by (simp add: received_def stream_chunks_def metadataMarker_def)
qed

subsection \<open>Properties of the search for the sentinels\<close>

lemma prefix_before_barrier:
  assumes "prefix pat (xs @ c # ys)" and "c \<notin> set pat"
  shows "prefix pat xs"
proof -
  from assms(1) have "prefix pat xs \<or> (\<exists>us. pat = xs @ us \<and> prefix us (c # ys))"
    unfolding prefix_append .
  then consider "prefix pat xs" | us where "pat = xs @ us" "prefix us (c # ys)"
    by blast
  then show ?thesis
  proof cases
    case 1
    then show ?thesis .
  next
    case 2
    show ?thesis
    proof (cases us)
      case Nil
      with 2 show ?thesis by simp
    next
      case (Cons u us')
      with 2 have "u = c" by simp
      with 2 Cons assms(2) show ?thesis by simp
    qed
  qed
qed

lemma indexOf_prefix: "pat \<noteq> [] \<Longrightarrow> indexOf (pat @ rest) pat = Some 0"
  by (cases pat) simp_all

lemma indexOf_after_barrier:
  assumes "c \<notin> set pat" and "pat \<noteq> []" and "\<not> sublist pat T"
  shows "indexOf (T @ c # ys) pat = map_option (\<lambda>i. i + length T + 1) (indexOf ys pat)"
  using assms(3)
proof (induction T)
  case Nil
  from assms(1,2) have "\<not> prefix pat (c # ys)" by (cases pat) auto
  then show ?case by (simp add: option.map_comp comp_def)
next
  case (Cons t T)
  have "\<not> prefix pat ((t # T) @ c # ys)"
  proof
    assume "prefix pat ((t # T) @ c # ys)"
    from prefix_before_barrier [OF this assms(1)] have "prefix pat (t # T)" .
    then have "sublist pat (t # T)" by (rule prefix_imp_sublist)
    with Cons.prems show False by simp
  qed
  moreover from Cons.prems have "\<not> sublist pat T" by (auto simp: sublist_Cons_right)
  ultimately show ?case
    using Cons.IH by (simp add: option.map_comp comp_def)
qed

lemma unbordered_END: "unbordered RAG_CONTEXT_END"
  by (simp add: unbordered_def RAG_CONTEXT_END_def js_def upt_rec)

lemma indexOf_unbordered:
  assumes "pat \<noteq> []" and "unbordered pat" and "\<not> sublist pat J"
  shows "indexOf (J @ pat) pat = Some (length J)"
  using assms(3)
proof (induction J)
  case Nil
  from assms(1) show ?case using indexOf_prefix [of pat "[]"] by simp
next
  case (Cons j J)
  have "\<not> prefix pat ((j # J) @ pat)"
  proof
    assume "prefix pat ((j # J) @ pat)"
    then have "prefix pat (j # J) \<or> (\<exists>us. pat = (j # J) @ us \<and> prefix us pat)"
      unfolding prefix_append .
    then consider "prefix pat (j # J)" | us where "pat = (j # J) @ us" "prefix us pat"
      by blast
    then show False
    proof cases
      case 1
      then have "sublist pat (j # J)" by (rule prefix_imp_sublist)
      with Cons.prems show False by simp
    next
      case 2
      let ?d = "length (j # J)"
      have ne: "us \<noteq> []"
      proof
        assume "us = []"
        with 2 have "sublist pat (j # J)" by simp
        with Cons.prems show False by simp
      qed
      from 2(1) have us: "us = drop ?d pat" by simp
      from 2(1) have len: "length pat = ?d + length us" by simp
      with ne have d: "1 \<le> ?d" "?d < length pat" by simp_all
      from 2(2) have "us = take (length us) pat" by (metis append_eq_conv_conj prefix_def)
      with us len have "drop ?d pat = take (length pat - ?d) pat" by simp
      moreover from assms(2) d have "drop ?d pat \<noteq> take (length pat - ?d) pat"
        unfolding unbordered_def list_all_iff by simp
      ultimately show False by simp
    qed
  qed
  moreover from Cons.prems have "\<not> sublist pat J" by (auto simp: sublist_Cons_right)
  ultimately show ?case using Cons.IH by simp
qed

subsection \<open>The round trip\<close>

lemma excerpt_is_string_json: "excerpt_is_string (fragment_json f)"
  by (simp add: excerpt_is_string_def fragment_json_def js_def)

lemma client_fragment_json: "client_fragment (fragment_json f) = client_view f"
  by (cases "url f") (simp_all add: client_fragment_def client_view_def fragment_json_def js_def)

lemma client_fragments_json:
  "map client_fragment (filter excerpt_is_string (map fragment_json F)) = map client_view F"
  by (induction F) (simp_all add: excerpt_is_string_json client_fragment_json)

lemma sentinel_positions:
  assumes "\<not> sublist RAG_CONTEXT_START T" and "\<not> sublist RAG_CONTEXT_END J"
  shows "indexOf (T @ [newline, newline] @ RAG_CONTEXT_START @ J @ RAG_CONTEXT_END) RAG_CONTEXT_START
           = Some (length T + 2)"
    and "indexOf_from (T @ [newline, newline] @ RAG_CONTEXT_START @ J @ RAG_CONTEXT_END)
           RAG_CONTEXT_END (length T + 2 + length RAG_CONTEXT_START)
           = Some (length T + 2 + length RAG_CONTEXT_START + length J)"
proof -
  let ?rest = "RAG_CONTEXT_START @ J @ RAG_CONTEXT_END"
  have nosub: "\<not> sublist RAG_CONTEXT_START []"
    using sentinel_plain(4) by simp
  have "indexOf ([] @ newline # ?rest) RAG_CONTEXT_START
          = map_option (\<lambda>i. i + length ([] :: jsstring) + 1) (indexOf ?rest RAG_CONTEXT_START)"
    using sentinel_plain(3,4) nosub by (rule indexOf_after_barrier)
  then have one: "indexOf (newline # ?rest) RAG_CONTEXT_START = Some 1"
    using indexOf_prefix [OF sentinel_plain(4), of "J @ RAG_CONTEXT_END"] by simp
  have "indexOf (T @ newline # (newline # ?rest)) RAG_CONTEXT_START
          = map_option (\<lambda>i. i + length T + 1) (indexOf (newline # ?rest) RAG_CONTEXT_START)"
    using sentinel_plain(3,4) assms(1) by (rule indexOf_after_barrier)
  with one show "indexOf (T @ [newline, newline] @ ?rest) RAG_CONTEXT_START = Some (length T + 2)"
    by simp
  have "drop (length T + 2 + length RAG_CONTEXT_START) (T @ [newline, newline] @ ?rest)
          = J @ RAG_CONTEXT_END"
    by simp
  moreover have "indexOf (J @ RAG_CONTEXT_END) RAG_CONTEXT_END = Some (length J)"
    using sentinel_plain(5) unbordered_END assms(2) by (rule indexOf_unbordered)
  ultimately show "indexOf_from (T @ [newline, newline] @ ?rest)
           RAG_CONTEXT_END (length T + 2 + length RAG_CONTEXT_START)
           = Some (length T + 2 + length RAG_CONTEXT_START + length J)"
    unfolding indexOf_from_def by (simp only: option.map) simp
qed

lemma parse_marked_text:
  assumes "\<not> sublist RAG_CONTEXT_START T" and "\<not> sublist RAG_CONTEXT_END J"
    and "P J = Some (metadata_json F)"
  shows "parseAssistantPayload P (T @ [newline, newline] @ RAG_CONTEXT_START @ J @ RAG_CONTEXT_END)
           = \<lparr> payload_content = T @ [newline, newline],
               payload_sourceFragments = (if F = [] then None else Some (map client_view F)) \<rparr>"
proof -
  let ?raw = "T @ [newline, newline] @ RAG_CONTEXT_START @ J @ RAG_CONTEXT_END"
  note pos = sentinel_positions [OF assms(1,2)]
  have content: "slice ?raw 0 (length T + 2) = T @ [newline, newline]"
    by (simp add: slice_def)
  have jsonText: "slice ?raw (length T + 2 + length RAG_CONTEXT_START)
        (length T + 2 + length RAG_CONTEXT_START + length J) = J"
    by (simp add: slice_def)
  have frs: "get_prop (metadata_json F) (js ''sourceFragments'') = Some (JArr (map fragment_json F))"
    by (simp add: metadata_json_def)
  have notnull: "metadata_json F \<noteq> JNull"
    by (simp add: metadata_json_def)
  show ?thesis
    unfolding parseAssistantPayload_def pos option.case Let_def content jsonText assms(3)
    using frs notnull
    by (cases "metadata_json F") (simp_all add: client_fragments_json)
qed

lemma round_trip_general:
  assumes "\<forall>c \<in> set T. c \<noteq> 0xD \<and> c \<noteq> 0x2028 \<and> c \<noteq> 0x2029 \<and> \<not> isSurrogate c \<and> c \<noteq> 0xFEFF"
    and "\<not> sublist RAG_CONTEXT_START T"
    and "toWellFormed (S (metadata_json F)) = S (metadata_json F)"
    and "\<not> sublist RAG_CONTEXT_END (S (metadata_json F))"
    and "P (S (metadata_json F)) = Some (metadata_json F)"
  shows "parseAssistantPayload P (received (stream_chunks S T F))
           = \<lparr> payload_content = T @ [newline, newline],
               payload_sourceFragments = (if F = [] then None else Some (map client_view F)) \<rparr>"
  unfolding received_stream [where T = T and S = S and F = F, OF assms(1,3)]
  using assms(2,4,5) by (rule parse_marked_text)

text \<open>
  C1, as the code has it. Let the visible text \<open>T\<close> contain no carriage return, no
  U+2028 or U+2029, no surrogate code unit and no U+FEFF, and let it not contain the
  start sentinel; let the JSON text of the metadata be well-formed UTF-16, not contain
  the end sentinel, and be read back by \<^verbatim>\<open>JSON.parse\<close> as the value it was written from.
  Then the client's \<^verbatim>\<open>parseAssistantPayload\<close>, applied to what it has received when the
  stream ends, yields as content \<open>T\<close> followed by the two line feeds that the server puts
  in front of the start sentinel, and as metadata the client's view of the fragments:
  none when the list is empty, otherwise every fragment with its title trimmed (or
  \<^verbatim>\<open>Source\<close>), its url trimmed (or \<^verbatim>\<open>null\<close>) and its excerpt unchanged.
\<close>

theorem stream_round_trip:
  assumes "\<forall>c \<in> set T. c \<noteq> 0xD \<and> c \<noteq> 0x2028 \<and> c \<noteq> 0x2029 \<and> \<not> isSurrogate c \<and> c \<noteq> 0xFEFF"
    and "\<not> sublist RAG_CONTEXT_START T"
    and "toWellFormed (S (metadata_json F)) = S (metadata_json F)"
    and "\<not> sublist RAG_CONTEXT_END (S (metadata_json F))"
    and "P (S (metadata_json F)) = Some (metadata_json F)"
  shows "parseAssistantPayload P (received (stream_chunks S T F))
           = \<lparr> payload_content = T @ [newline, newline],
               payload_sourceFragments = (if F = [] then None else Some (map client_view F)) \<rparr>"
  using assms by (rule round_trip_general)

lemma example_texts_plain:
  "\<forall>c \<in> set empty_metadata_text. \<not> isSurrogate c"
  "\<forall>c \<in> set example_metadata_text. \<not> isSurrogate c"
  by (simp_all add: empty_metadata_text_def example_metadata_text_def js_def quoted_def
        dquote_def isSurrogate_def isHighSurrogate_def isLowSurrogate_def)

lemma example_texts_no_end:
  "\<not> sublist RAG_CONTEXT_END empty_metadata_text"
  "\<not> sublist RAG_CONTEXT_END example_metadata_text"
  by (simp_all add: empty_metadata_text_def example_metadata_text_def RAG_CONTEXT_END_def
        js_def quoted_def dquote_def sublist_Cons_right)

lemma example_metadata_distinct: "metadata_json [example_fragment] \<noteq> metadata_json []"
  by (simp add: metadata_json_def)

lemma example_stringify_values:
  "example_stringify (metadata_json []) = empty_metadata_text"
  "example_stringify (metadata_json [example_fragment]) = example_metadata_text"
  by (simp_all add: example_stringify_def example_metadata_distinct)

lemma example_parse_values:
  "example_metadata_parse empty_metadata_text = Some (metadata_json [])"
  "example_metadata_parse example_metadata_text = Some (metadata_json [example_fragment])"
  by (simp_all add: example_metadata_parse_def empty_metadata_text_def example_metadata_text_def
        js_def quoted_def)

theorem stream_round_trip_witness:
  "parseAssistantPayload example_metadata_parse
     (received (stream_chunks example_stringify (js ''Hi'' @ [newline] @ js ''there'')
        [example_fragment]))
   = \<lparr> payload_content = js ''Hi'' @ [newline] @ js ''there'' @ [newline, newline],
       payload_sourceFragments =
         Some [\<lparr> title = js ''[1] Manual'', url = None, excerpt = js ''Rule <G1>'' \<rparr>] \<rparr>"
proof -
  let ?T = "js ''Hi'' @ [newline] @ js ''there''"
  have t: "\<forall>c \<in> set ?T. c \<noteq> 0xD \<and> c \<noteq> 0x2028 \<and> c \<noteq> 0x2029 \<and> \<not> isSurrogate c \<and> c \<noteq> 0xFEFF"
    by (simp add: js_def newline_def isSurrogate_def isHighSurrogate_def isLowSurrogate_def)
  have s: "\<not> sublist RAG_CONTEXT_START ?T"
    by (simp add: RAG_CONTEXT_START_def js_def newline_def sublist_Cons_right)
  have w: "toWellFormed (example_stringify (metadata_json [example_fragment]))
      = example_stringify (metadata_json [example_fragment])"
    unfolding example_stringify_values using example_texts_plain(2) by (rule toWellFormed_plain)
  have e: "\<not> sublist RAG_CONTEXT_END (example_stringify (metadata_json [example_fragment]))"
    unfolding example_stringify_values by (rule example_texts_no_end)
  have p: "example_metadata_parse (example_stringify (metadata_json [example_fragment]))
      = Some (metadata_json [example_fragment])"
    unfolding example_stringify_values by (rule example_parse_values)
  have v: "client_view example_fragment
      = \<lparr> title = js ''[1] Manual'', url = None, excerpt = js ''Rule <G1>'' \<rparr>"
    by (simp add: client_view_def example_fragment_def trim_def js_def isWhiteSpace_def)
  from stream_round_trip
    [where T = ?T and S = example_stringify and F = "[example_fragment]"
       and P = example_metadata_parse, OF t s w e p] v
  show ?thesis by simp
qed

text \<open>
  The visible text \<^verbatim>\<open>a\<close> and no fragment: the content that the client recovers is the
  text followed by two line feeds, not the text, and the metadata is absent, not the
  empty list.
\<close>

theorem stream_round_trip_counterexample:
  "payload_content (parseAssistantPayload example_metadata_parse
       (received (stream_chunks example_stringify (js ''a'') [])))
     \<noteq> js ''a''
   \<and> payload_sourceFragments (parseAssistantPayload example_metadata_parse
       (received (stream_chunks example_stringify (js ''a'') [])))
     \<noteq> Some []"
proof -
  have t: "\<forall>c \<in> set (js ''a''). c \<noteq> 0xD \<and> c \<noteq> 0x2028 \<and> c \<noteq> 0x2029 \<and> \<not> isSurrogate c \<and> c \<noteq> 0xFEFF"
    by (simp add: js_def isSurrogate_def isHighSurrogate_def isLowSurrogate_def)
  have s: "\<not> sublist RAG_CONTEXT_START (js ''a'')"
    by (simp add: RAG_CONTEXT_START_def js_def sublist_Cons_right)
  have w: "toWellFormed (example_stringify (metadata_json [])) = example_stringify (metadata_json [])"
    unfolding example_stringify_values using example_texts_plain(1) by (rule toWellFormed_plain)
  have e: "\<not> sublist RAG_CONTEXT_END (example_stringify (metadata_json []))"
    unfolding example_stringify_values by (rule example_texts_no_end)
  have p: "example_metadata_parse (example_stringify (metadata_json [])) = Some (metadata_json [])"
    unfolding example_stringify_values by (rule example_parse_values)
  from round_trip_general
    [where T = "js ''a''" and S = example_stringify and F = "[]"
       and P = example_metadata_parse, OF t s w e p]
  show ?thesis by (simp add: js_def)
qed

subsection \<open>Properties of the visible answer and of its delivery\<close>

lemma trim_visible: "trim s \<noteq> [] \<Longrightarrow> \<exists>c \<in> set (trim s). \<not> isWhiteSpace c"
proof -
  assume ne: "trim s \<noteq> []"
  let ?x = "rev (dropWhile isWhiteSpace (rev s))"
  from ne have d: "dropWhile isWhiteSpace ?x \<noteq> []" unfolding trim_def .
  then have "\<not> isWhiteSpace (hd (dropWhile isWhiteSpace ?x))" by (rule hd_dropWhile)
  moreover from d have "hd (dropWhile isWhiteSpace ?x) \<in> set (dropWhile isWhiteSpace ?x)"
    by (rule hd_in_set)
  ultimately show ?thesis unfolding trim_def by blast
qed

lemma trim_Nil: "trim [] = []"
  by (simp add: trim_def)

lemma parse_answer_trimmed: "\<exists>s. answer (parseFinalModelOutput P t) = trim s"
proof (cases "answer (parseFinalModelOutput P t) = []")
  case True
  then show ?thesis using trim_Nil by metis
next
  case False
  then show ?thesis
    by (auto simp: parseFinalModelOutput_def parse_failed_def Let_def
          split: option.splits json.splits if_splits)
qed

lemma fallback_trimmed: "\<exists>s. extractAnswerFallbackText raw = trim s"
  by (auto simp: extractAnswerFallbackText_def unescaped_def stripped_text_def split: option.splits)

lemma apology_visible: "\<exists>c \<in> set apology. \<not> isWhiteSpace c"
proof -
  have "\<not> isWhiteSpace 0x49" by (simp add: isWhiteSpace_def)
  moreover have "0x49 \<in> set apology" by (simp add: apology_def js_def)
  ultimately show ?thesis by blast
qed

lemma or_else_visible:
  assumes "a \<noteq> [] \<longrightarrow> (\<exists>c \<in> set a. \<not> isWhiteSpace c)" and "\<exists>c \<in> set b. \<not> isWhiteSpace c"
  shows "\<exists>c \<in> set (or_else a b). \<not> isWhiteSpace c"
  using assms by (simp add: or_else_def)

lemma visible_answer_char:
  "\<exists>c \<in> set (fst (answer_stage P generate m raw w)). \<not> isWhiteSpace c"
proof -
  let ?p = "fst (snd (answer_stage P generate m raw w))"
  obtain t where t: "?p = parseFinalModelOutput P t"
    using answer_stage_parse [of P generate m raw w] by blast
  obtain s where s: "answer ?p = trim s"
    using parse_answer_trimmed [of P t] t by auto
  obtain s' where s': "extractAnswerFallbackText raw = trim s'"
    using fallback_trimmed [of raw] by auto
  have a: "answer ?p \<noteq> [] \<longrightarrow> (\<exists>c \<in> set (answer ?p). \<not> isWhiteSpace c)"
    unfolding s using trim_visible [of s] by blast
  have f: "extractAnswerFallbackText raw \<noteq> []
      \<longrightarrow> (\<exists>c \<in> set (extractAnswerFallbackText raw). \<not> isWhiteSpace c)"
    unfolding s' using trim_visible [of s'] by blast
  have "\<exists>c \<in> set (or_else (extractAnswerFallbackText raw) apology). \<not> isWhiteSpace c"
    using f apology_visible by (rule or_else_visible)
  with a show ?thesis
    unfolding answer_stage_visible [of P generate m raw w] by (rule or_else_visible)
qed

lemma replace_pair_survivor:
  assumes "survives x"
  shows "\<exists>c \<in> set s. survives c \<Longrightarrow> \<exists>c \<in> set (replace_pair a b [x] s). survives c"
proof (induction a b "[x]" s rule: replace_pair.induct)
  case (1 a b u v cs)
  show ?case
  proof (cases "u = a \<and> v = b")
    case True
    with assms show ?thesis by simp
  next
    case False
    show ?thesis
    proof (cases "survives u")
      case True
      with False show ?thesis by auto
    next
      case nu: False
      with "1.prems" have "\<exists>c \<in> set (v # cs). survives c" by simp
      from "1.hyps"(2) [OF False this] False show ?thesis by auto
    qed
  qed
qed simp_all

lemma survives_chars: "survives newline" "survives 0x9"
  by (simp_all add: survives_def)

lemma normalize_survivor:
  assumes "\<exists>c \<in> set v. survives c"
  shows "\<exists>c \<in> set (normalizeAssistantMarkdown v). survives c"
proof -
  have nl: "survives 0xA" using survives_chars(1) by (simp add: newline_def)
  have one: "\<exists>c \<in> set (replace_crlf v). survives c"
    unfolding replace_crlf_def using nl assms by (rule replace_pair_survivor)
  have two: "\<exists>c \<in> set (replace_pair backslash 0x6E [newline] (replace_crlf v)). survives c"
    using survives_chars(1) one by (rule replace_pair_survivor)
  have three: "\<exists>c \<in> set (replace_pair backslash 0x74 [0x9]
      (replace_pair backslash 0x6E [newline] (replace_crlf v))). survives c"
    using survives_chars(2) two by (rule replace_pair_survivor)
  from one three show ?thesis
    by (simp add: normalizeAssistantMarkdown_def Let_def)
qed

lemma survivor_not_dropped:
  assumes "survives c"
  shows "c \<noteq> 0xD" "c \<noteq> 0x2028" "c \<noteq> 0x2029" "c \<noteq> 0xFEFF"
  using assms by (auto simp: survives_def isWhiteSpace_def newline_def)

lemma in_concat_map: "p \<in> set xs \<Longrightarrow> c \<in> set (g p) \<Longrightarrow> c \<in> set (concat (map g xs))"
  by auto

lemma survivor_streamed:
  assumes "c \<in> set N" and "survives c"
  shows "c \<in> set (concat (splitForStream N))"
proof -
  let ?f = "\<lambda>part. if trim part = [] then [part]
                     else (case dot_matches part of [] \<Rightarrow> [part] | m # ms \<Rightarrow> m # ms)"
  from assms(1) have "c \<in> set (concat (split_newline_runs N))"
    by (simp only: concat_split_newline_runs)
  then obtain p where p: "p \<in> set (split_newline_runs N)" and cp: "c \<in> set p" by auto
  have fp: "c \<in> set (concat (?f p))"
  proof (cases "trim p = []")
    case True
    with cp show ?thesis by simp
  next
    case False
    with newlines_trim_empty [of p] split_newline_runs_parts [OF p]
    have "newline \<notin> set p" by blast
    with cp have "c \<noteq> newline" by blast
    with survivor_not_dropped [OF assms(2)] have "\<not> isLineTerminator c"
      by (simp add: isLineTerminator_iff)
    with cp have "c \<in> set (filter (\<lambda>x. \<not> isLineTerminator x) p)" by simp
    then have m: "c \<in> set (concat (dot_matches p))" by (simp only: concat_dot_matches)
    show ?thesis
    proof (cases "dot_matches p")
      case Nil
      with m show ?thesis by simp
    next
      case (Cons a as)
      with False m show ?thesis by simp
    qed
  qed
  have "c \<in> set (concat (map (\<lambda>p. concat (?f p)) (split_newline_runs N)))"
    by (rule in_concat_map [where g = "\<lambda>p. concat (?f p)", OF p fp])
  then have "c \<in> set (concat (concat (map ?f (split_newline_runs N))))"
    by (simp only: concat_concat_map)
  then show ?thesis
    unfolding splitForStream_def by (simp only: concat_nonempty)
qed

lemma toWellFormed_length: "length (toWellFormed s) = length s"
  by (induction s rule: toWellFormed.induct) simp_all

lemma encode_decode_nonempty:
  assumes "c \<in> set seg" and "c \<noteq> 0xFEFF"
  shows "encode_decode seg \<noteq> []"
proof (cases seg)
  case Nil
  with assms(1) show ?thesis by simp
next
  case (Cons a rest)
  show ?thesis
  proof (cases rest)
    case Nil
    with Cons assms have "a \<noteq> 0xFEFF" by simp
    with Cons Nil show ?thesis by (simp add: encode_decode_def)
  next
    case (Cons b rest')
    with \<open>seg = a # rest\<close> have "length (toWellFormed seg) \<ge> 2"
      by (simp add: toWellFormed_length)
    then obtain x y zs where "toWellFormed seg = x # y # zs"
      by (cases "toWellFormed seg"; cases "tl (toWellFormed seg)") auto
    then show ?thesis by (simp add: encode_decode_def)
  qed
qed

lemma streamed_nonempty:
  assumes "\<exists>c \<in> set v. \<not> isWhiteSpace c"
  shows "splitForStream (normalizeAssistantMarkdown v) \<noteq> []"
    and "[] \<notin> set (splitForStream (normalizeAssistantMarkdown v))"
    and "concat (map encode_decode (splitForStream (normalizeAssistantMarkdown v))) \<noteq> []"
proof -
  let ?segs = "splitForStream (normalizeAssistantMarkdown v)"
  from assms have "\<exists>c \<in> set v. survives c" by (auto simp: survives_def)
  from normalize_survivor [OF this] obtain c
    where c: "c \<in> set (normalizeAssistantMarkdown v)" and s: "survives c" by blast
  from survivor_streamed [OF c s] obtain seg where seg: "seg \<in> set ?segs" and cs: "c \<in> set seg"
    by auto
  from seg show "?segs \<noteq> []" by auto
  show "[] \<notin> set ?segs" using splitForStream_nonempty by blast
  from encode_decode_nonempty [OF cs survivor_not_dropped(4) [OF s]] seg
  show "concat (map encode_decode ?segs) \<noteq> []" by auto
qed

lemma normalizeAssistantMarkdown_examples:
  "normalizeAssistantMarkdown (js ''a'' @ [0xD, 0xA] @ js ''b'') = js ''a'' @ [newline] @ js ''b''"
  "normalizeAssistantMarkdown (js ''a'' @ [backslash] @ js ''nb'' @ [backslash] @ js ''tc'')
     = js ''a'' @ [newline] @ js ''b'' @ [0x9] @ js ''c''"
  "normalizeAssistantMarkdown (js ''a'' @ [newline] @ js ''b'' @ [backslash] @ js ''nc'')
     = js ''a'' @ [newline] @ js ''b'' @ [backslash] @ js ''nc''"
  "normalizeAssistantMarkdown ([backslash] @ js ''n'') = [newline]"
  "splitForStream (normalizeAssistantMarkdown ([backslash] @ js ''n'')) = [[newline]]"
  by (simp_all add: normalizeAssistantMarkdown_def replace_crlf_def Let_def js_def newline_def
        backslash_def splitForStream_def split_newline_runs.simps dot_matches.simps trim_def
        isWhiteSpace_def)

lemma parseFinalModelOutput_fields:
  assumes "extractJsonObject raw = Some t" and "P t = Some v"
    and "get_prop v (js ''answer'') = Some (JStr s)"
  shows "parseFinalModelOutput P raw =
           \<lparr> answer = trim s,
             usedSourceNumbers =
               (case get_prop v (js ''usedSourceNumbers'') of
                  Some (JArr ns) \<Rightarrow> numbers_of ns | _ \<Rightarrow> []),
             ok = (trim s \<noteq> []) \<rparr>"
proof -
  from assms(1) have "t \<noteq> []" using extractJsonObject_nonempty [of raw] by auto
  moreover from assms(3) have "v \<noteq> JNull" by auto
  ultimately show ?thesis
    using assms by (cases v) (simp_all add: parseFinalModelOutput_def Let_def)
qed

lemma parseFinalModelOutput_failed:
  assumes "extractJsonObject raw = None \<or> (\<exists>t. extractJsonObject raw = Some t \<and> P t = None)"
  shows "parseFinalModelOutput P raw = parse_failed"
  using assms by (auto simp: parseFinalModelOutput_def)

lemma answer_stage_repaired:
  assumes "\<not> ok (parseFinalModelOutput P raw)"
    and "generate (repair_request m raw) w = (Inr r, w')"
  shows "answer_stage P generate m raw w =
           ((if ok (parseFinalModelOutput P (result_text r))
             then answer (parseFinalModelOutput P (result_text r))
             else if extractAnswerFallbackText raw \<noteq> [] then extractAnswerFallbackText raw
             else apology),
            parseFinalModelOutput P (result_text r), w')"
  using assms parseFinalModelOutput_ok [of P "result_text r"]
  by (simp add: answer_stage_def Let_def or_else_def)

lemma answer_stage_repair_failed:
  assumes "\<not> ok (parseFinalModelOutput P raw)"
    and "generate (repair_request m raw) w = (Inl e, w')"
  shows "snd (answer_stage P generate m raw w) = (parseFinalModelOutput P raw, w')"
  using assms by (simp add: answer_stage_def Let_def)

lemma response_stream_chunks:
  "\<exists>fragments.
     post_sourceFragments S chunks (fst (snd (answer_stage P generate m raw w))) = Inr fragments
     \<and> response_stream P St S generate m chunks raw w =
         (Inr (splitForStream (normalizeAssistantMarkdown (fst (answer_stage P generate m raw w)))
                @ [metadataMarker St fragments]),
          snd (snd (answer_stage P generate m raw w)))"
proof -
  obtain visible parsed w' where a: "answer_stage P generate m raw w = (visible, parsed, w')"
    by (cases "answer_stage P generate m raw w") auto
  obtain fragments where f: "post_sourceFragments S chunks parsed = Inr fragments"
    using post_sourceFragments_returns [of S chunks parsed] by blast
  have "response_stream P St S generate m chunks raw w =
     (Inr (splitForStream (normalizeAssistantMarkdown visible) @ [metadataMarker St fragments]), w')"
    by (simp add: response_stream_def a f Let_def stream_chunks_def)
  with a f show ?thesis by auto
qed

subsection \<open>The answer fallback chain\<close>

text \<open>
  C9. For every text of the final model, whatever the parser and the repair call do,
  the visible answer is not empty. It is the answer of the final parse when that parse
  is ok (the parse of the text itself, with no repair call, when that one is ok);
  otherwise it is the fallback text when that is not empty, and the fixed apology when
  it is. The fallback text is the unescaped, trimmed group of the \<^verbatim>\<open>"answer"\<close> pattern
  when the pattern matches with a group that is not empty, and otherwise the text
  stripped of JSON punctuation. When the repair call throws, the visible answer is the
  fallback text or the apology; and replacing the errors that the provider throws by
  any others never changes the visible answer, so no error message reaches it.

  The parse itself: when a JSON object text is extracted, \<^verbatim>\<open>JSON.parse\<close> reads it and its
  \<^verbatim>\<open>answer\<close> is a string, the parsed answer is that string trimmed, the parse is ok exactly
  when the trimmed string is not empty, and the source numbers are the numbers of its
  \<^verbatim>\<open>usedSourceNumbers\<close> array; when nothing is extracted or \<^verbatim>\<open>JSON.parse\<close> throws, the parse
  is the failed one. When the parse of the text is not ok and the repair call returns,
  the final parse is the parse of the repaired text and one call has been made: the
  visible answer is the repaired answer when that parse is ok, and the fallback text of
  the original text or the apology otherwise. When the repair call throws, the final
  parse stays the parse of the original text.

  The delivery: the response never fails; its chunks are the segments of
  \<^verbatim>\<open>splitForStream\<close> applied to \<^verbatim>\<open>normalizeAssistantMarkdown\<close> of the visible answer, followed by
  the metadata marker of the source fragments. There is at least one segment, no
  segment is empty, and what the client has decoded from the segments, before the
  marker arrives, is not empty.
\<close>

theorem visible_answer_fallback_chain:
  "fst (answer_stage P generate m raw w) \<noteq> []
   \<and> fst (answer_stage P generate m raw w) =
       (if ok (fst (snd (answer_stage P generate m raw w)))
        then answer (fst (snd (answer_stage P generate m raw w)))
        else if extractAnswerFallbackText raw \<noteq> [] then extractAnswerFallbackText raw
        else apology)
   \<and> (ok (parseFinalModelOutput P raw) \<longrightarrow>
        answer_stage P generate m raw w
          = (answer (parseFinalModelOutput P raw), parseFinalModelOutput P raw, w))
   \<and> (\<forall>captured. answer_match raw = Some captured \<and> captured \<noteq> [] \<longrightarrow>
        extractAnswerFallbackText raw = unescaped captured)
   \<and> (answer_match raw = None \<or> answer_match raw = Some [] \<longrightarrow>
        extractAnswerFallbackText raw = stripped_text raw)
   \<and> (\<forall>e w'. \<not> ok (parseFinalModelOutput P raw)
          \<and> generate (repair_request m raw) w = (Inl e, w') \<longrightarrow>
        fst (answer_stage P generate m raw w)
          = (if extractAnswerFallbackText raw \<noteq> [] then extractAnswerFallbackText raw
             else apology))
   \<and> fst (answer_stage P (with_errors f generate) m raw w) = fst (answer_stage P generate m raw w)
   \<and> (\<forall>t v s. extractJsonObject raw = Some t \<and> P t = Some v
          \<and> get_prop v (js ''answer'') = Some (JStr s) \<longrightarrow>
        parseFinalModelOutput P raw =
          \<lparr> answer = trim s,
            usedSourceNumbers =
              (case get_prop v (js ''usedSourceNumbers'') of
                 Some (JArr ns) \<Rightarrow> numbers_of ns | _ \<Rightarrow> []),
            ok = (trim s \<noteq> []) \<rparr>)
   \<and> (extractJsonObject raw = None \<or> (\<exists>t. extractJsonObject raw = Some t \<and> P t = None) \<longrightarrow>
        parseFinalModelOutput P raw = parse_failed)
   \<and> (\<forall>r w'. \<not> ok (parseFinalModelOutput P raw)
          \<and> generate (repair_request m raw) w = (Inr r, w') \<longrightarrow>
        answer_stage P generate m raw w =
          ((if ok (parseFinalModelOutput P (result_text r))
            then answer (parseFinalModelOutput P (result_text r))
            else if extractAnswerFallbackText raw \<noteq> [] then extractAnswerFallbackText raw
            else apology),
           parseFinalModelOutput P (result_text r), w'))
   \<and> (\<forall>e w'. \<not> ok (parseFinalModelOutput P raw)
          \<and> generate (repair_request m raw) w = (Inl e, w') \<longrightarrow>
        snd (answer_stage P generate m raw w) = (parseFinalModelOutput P raw, w'))
   \<and> (\<exists>fragments.
        post_sourceFragments S chunks (fst (snd (answer_stage P generate m raw w))) = Inr fragments
        \<and> response_stream P St S generate m chunks raw w =
            (Inr (splitForStream (normalizeAssistantMarkdown (fst (answer_stage P generate m raw w)))
                   @ [metadataMarker St fragments]),
             snd (snd (answer_stage P generate m raw w))))
   \<and> splitForStream (normalizeAssistantMarkdown (fst (answer_stage P generate m raw w))) \<noteq> []
   \<and> [] \<notin> set (splitForStream (normalizeAssistantMarkdown (fst (answer_stage P generate m raw w))))
   \<and> received (splitForStream (normalizeAssistantMarkdown (fst (answer_stage P generate m raw w))))
       \<noteq> []"
proof -
  let ?p = "fst (snd (answer_stage P generate m raw w))"
  let ?v = "fst (answer_stage P generate m raw w)"
  obtain t where t: "?p = parseFinalModelOutput P t"
    using answer_stage_parse [of P generate m raw w] by blast
  have okp: "ok ?p \<longleftrightarrow> answer ?p \<noteq> []"
    unfolding t by (rule parseFinalModelOutput_ok)
  have vis: "?v = or_else (answer ?p) (or_else (extractAnswerFallbackText raw) apology)"
    by (rule answer_stage_visible)
  have c1: "?v \<noteq> []"
    unfolding vis by (simp add: or_else_def apology_nonempty)
  have c2: "?v = (if ok ?p then answer ?p
        else if extractAnswerFallbackText raw \<noteq> [] then extractAnswerFallbackText raw
        else apology)"
    unfolding vis using okp by (simp add: or_else_def)
  have c3: "ok (parseFinalModelOutput P raw) \<longrightarrow>
        answer_stage P generate m raw w
          = (answer (parseFinalModelOutput P raw), parseFinalModelOutput P raw, w)"
    using parseFinalModelOutput_ok [of P raw]
    by (simp add: answer_stage_def Let_def or_else_def)
  have c4: "\<forall>captured. answer_match raw = Some captured \<and> captured \<noteq> [] \<longrightarrow>
        extractAnswerFallbackText raw = unescaped captured"
    by (simp add: extractAnswerFallbackText_def)
  have c5: "answer_match raw = None \<or> answer_match raw = Some [] \<longrightarrow>
        extractAnswerFallbackText raw = stripped_text raw"
    by (auto simp: extractAnswerFallbackText_def)
  have c6: "\<forall>e w'. \<not> ok (parseFinalModelOutput P raw)
          \<and> generate (repair_request m raw) w = (Inl e, w') \<longrightarrow>
        fst (answer_stage P generate m raw w)
          = (if extractAnswerFallbackText raw \<noteq> [] then extractAnswerFallbackText raw
             else apology)"
    using parseFinalModelOutput_ok [of P raw]
    by (simp add: answer_stage_def Let_def or_else_def)
  have c7: "fst (answer_stage P (with_errors f generate) m raw w) = ?v"
    by (cases "generate (repair_request m raw) w")
       (auto simp: answer_stage_def with_errors_def Let_def split: sum.splits)
  have c8: "\<forall>t v s. extractJsonObject raw = Some t \<and> P t = Some v
          \<and> get_prop v (js ''answer'') = Some (JStr s) \<longrightarrow>
        parseFinalModelOutput P raw =
          \<lparr> answer = trim s,
            usedSourceNumbers =
              (case get_prop v (js ''usedSourceNumbers'') of
                 Some (JArr ns) \<Rightarrow> numbers_of ns | _ \<Rightarrow> []),
            ok = (trim s \<noteq> []) \<rparr>"
    using parseFinalModelOutput_fields [of raw _ P] by blast
  have c9: "extractJsonObject raw = None \<or> (\<exists>t. extractJsonObject raw = Some t \<and> P t = None) \<longrightarrow>
        parseFinalModelOutput P raw = parse_failed"
    using parseFinalModelOutput_failed [of raw P] by blast
  have c10: "\<forall>r w'. \<not> ok (parseFinalModelOutput P raw)
          \<and> generate (repair_request m raw) w = (Inr r, w') \<longrightarrow>
        answer_stage P generate m raw w =
          ((if ok (parseFinalModelOutput P (result_text r))
            then answer (parseFinalModelOutput P (result_text r))
            else if extractAnswerFallbackText raw \<noteq> [] then extractAnswerFallbackText raw
            else apology),
           parseFinalModelOutput P (result_text r), w')"
    using answer_stage_repaired [of P raw generate m w] by blast
  have c11: "\<forall>e w'. \<not> ok (parseFinalModelOutput P raw)
          \<and> generate (repair_request m raw) w = (Inl e, w') \<longrightarrow>
        snd (answer_stage P generate m raw w) = (parseFinalModelOutput P raw, w')"
    using answer_stage_repair_failed [of P raw generate m w] by blast
  have c12: "\<exists>fragments.
        post_sourceFragments S chunks ?p = Inr fragments
        \<and> response_stream P St S generate m chunks raw w =
            (Inr (splitForStream (normalizeAssistantMarkdown ?v) @ [metadataMarker St fragments]),
             snd (snd (answer_stage P generate m raw w)))"
    by (rule response_stream_chunks)
  have char: "\<exists>c \<in> set ?v. \<not> isWhiteSpace c"
    by (rule visible_answer_char)
  have c13: "splitForStream (normalizeAssistantMarkdown ?v) \<noteq> []"
    using char by (rule streamed_nonempty(1))
  have c14: "[] \<notin> set (splitForStream (normalizeAssistantMarkdown ?v))"
    using char by (rule streamed_nonempty(2))
  have c15: "received (splitForStream (normalizeAssistantMarkdown ?v)) \<noteq> []"
    unfolding received_def using char by (rule streamed_nonempty(3))
  show ?thesis
    by (intro conjI; (rule c1 c2 c3 c4 c5 c6 c7 c8 c9 c10 c11 c12 c13 c14 c15))
qed

lemma fallback_examples:
  "extractAnswerFallbackText (js ''The answer is 42'') = js ''The answer is 42''"
  "extractAnswerFallbackText (js ''{}'') = []"
  "extractAnswerFallbackText truncated_answer_text
     = js ''Hi '' @ quoted (js ''you'') @ [newline] @ js ''there''"
  "extractAnswerFallbackText (js ''{ '' @ quoted (js ''Answer'') @ js '' : 42, ''
      @ quoted (js ''usedSourceNumbers'') @ js '': []}'') = js ''42,''"
  by (simp_all add: extractAnswerFallbackText_def stripped_text_def unescaped_def answer_here_def
        truncated_answer_text_def js_def quoted_def dquote_def backslash_def newline_def
        prefix_ci_def toUpperAscii_def isWhiteSpace_def isJsonPunctuation_def trim_def)

lemma parse_examples:
  "\<not> ok (parseFinalModelOutput example_final_parse (js ''The answer is 42''))"
  "\<not> ok (parseFinalModelOutput example_final_parse (js ''{}''))"
  "\<not> ok (parseFinalModelOutput example_final_parse truncated_answer_text)"
  by (simp_all add: parseFinalModelOutput_def parse_failed_def extractJsonObject_def
        example_final_parse_def truncated_answer_text_def complete_answer_text_def js_def
        quoted_def dquote_def
        backslash_def fence_def prefix_ci_def toUpperAscii_def isWhiteSpace_def slice_def)

lemma complete_answer_examples:
  "extractJsonObject complete_answer_text = Some complete_answer_text"
  "example_final_parse complete_answer_text
     = Some (JObj [(js ''answer'', JStr (js '' 42 points '')),
                   (js ''usedSourceNumbers'', JArr [JNum (Finite 1)])])"
  "trim (js '' 42 points '') = js ''42 points''"
  "splitForStream (normalizeAssistantMarkdown (js ''42 points'')) = [js ''42 points'']"
  "splitForStream (normalizeAssistantMarkdown (js ''The answer is 42'')) = [js ''The answer is 42'']"
  by (simp_all add: extractJsonObject_def example_final_parse_def complete_answer_text_def
        js_def quoted_def dquote_def backslash_def newline_def fence_def prefix_ci_def
        toUpperAscii_def isWhiteSpace_def isLineTerminator_def slice_def trim_def
        normalizeAssistantMarkdown_def replace_crlf_def Let_def splitForStream_def
        split_newline_runs.simps dot_matches.simps)

lemma example_fragments:
  "getSourceFragmentsByNumber String_of_integer [] [Finite 1] = Inr []"
  "getSourceFragmentsByNumber String_of_integer [] [] = Inr []"
  by (simp_all add: fragments_of_numbers)

theorem visible_answer_fallback_chain_witness:
  "answer_stage example_final_parse failing_backend (js ''gemini-2.5-pro'') complete_answer_text 0
     = (js ''42 points'',
        \<lparr> answer = js ''42 points'', usedSourceNumbers = [Finite 1], ok = True \<rparr>, 0)
   \<and> answer_stage example_final_parse repairing_backend (js ''gemini-2.5-pro'')
         (js ''The answer is 42'') 0
     = (js ''42 points'',
        \<lparr> answer = js ''42 points'', usedSourceNumbers = [Finite 1], ok = True \<rparr>, 1)
   \<and> answer_stage example_final_parse failing_backend (js ''gemini-2.5-pro'')
         (js ''The answer is 42'') 0
     = (js ''The answer is 42'', parse_failed, 1)
   \<and> fst (answer_stage example_final_parse failing_backend (js ''gemini-2.5-pro'') (js ''{}'') 0)
       = apology
   \<and> fst (answer_stage example_final_parse failing_backend (js ''gemini-2.5-pro'')
         truncated_answer_text 0) = js ''Hi '' @ quoted (js ''you'') @ [newline] @ js ''there''
   \<and> response_stream example_final_parse example_stringify String_of_integer repairing_backend
         (js ''gemini-2.5-pro'') [] (js ''The answer is 42'') 0
     = (Inr [js ''42 points'', metadataMarker example_stringify []], 1)
   \<and> response_stream example_final_parse example_stringify String_of_integer failing_backend
         (js ''gemini-2.5-pro'') [] (js ''The answer is 42'') 0
     = (Inr [js ''The answer is 42'', metadataMarker example_stringify []], 1)"
proof -
  let ?m = "js ''gemini-2.5-pro''"
  let ?parsed = "\<lparr> answer = js ''42 points'', usedSourceNumbers = [Finite 1], ok = True \<rparr>"
  note failing = visible_answer_fallback_chain
    [where P = example_final_parse and generate = failing_backend and m = ?m and w = 0
       and St = example_stringify and S = String_of_integer and chunks = "[]"]
  note repairing = visible_answer_fallback_chain
    [where P = example_final_parse and generate = repairing_backend and m = ?m and w = 0
       and St = example_stringify and S = String_of_integer and chunks = "[]"]
  have fails: "\<And>raw. failing_backend (repair_request ?m raw) 0
      = (Inl (Error (js ''Gemini request failed: 503'')), 1)"
    by (simp add: failing_backend_def)
  have repairs: "\<And>raw. repairing_backend (repair_request ?m raw) 0
      = (Inr \<lparr> result_text = complete_answer_text, finishReason = Some (js ''STOP'') \<rparr>, 1)"
    by (simp add: repairing_backend_def)
  have answer_prop: "get_prop (JObj [(js ''answer'', JStr (js '' 42 points '')),
                   (js ''usedSourceNumbers'', JArr [JNum (Finite 1)])]) (js ''answer'')
                = Some (JStr (js '' 42 points ''))"
    by (simp add: js_def)
  have used: "(case get_prop (JObj [(js ''answer'', JStr (js '' 42 points '')),
                   (js ''usedSourceNumbers'', JArr [JNum (Finite 1)])]) (js ''usedSourceNumbers'')
               of Some (JArr ns) \<Rightarrow> numbers_of ns | _ \<Rightarrow> []) = [Finite 1]"
    by (simp add: js_def)
  have nonempty: "js ''42 points'' \<noteq> []"
    by (simp add: js_def)
  have "parseFinalModelOutput example_final_parse complete_answer_text =
          \<lparr> answer = trim (js '' 42 points ''),
            usedSourceNumbers =
              (case get_prop (JObj [(js ''answer'', JStr (js '' 42 points '')),
                   (js ''usedSourceNumbers'', JArr [JNum (Finite 1)])]) (js ''usedSourceNumbers'')
               of Some (JArr ns) \<Rightarrow> numbers_of ns | _ \<Rightarrow> []),
            ok = (trim (js '' 42 points '') \<noteq> []) \<rparr>"
    using failing [where raw = complete_answer_text] complete_answer_examples(1,2) answer_prop by blast
  then have parsed: "parseFinalModelOutput example_final_parse complete_answer_text = ?parsed"
    unfolding used complete_answer_examples(3) using nonempty by simp
  have a: "answer_stage example_final_parse failing_backend ?m complete_answer_text 0
     = (js ''42 points'', ?parsed, 0)"
    using failing [where raw = complete_answer_text] unfolding parsed by simp
  have "answer_stage example_final_parse repairing_backend ?m (js ''The answer is 42'') 0 =
          ((if ok (parseFinalModelOutput example_final_parse complete_answer_text)
            then answer (parseFinalModelOutput example_final_parse complete_answer_text)
            else if extractAnswerFallbackText (js ''The answer is 42'') \<noteq> []
            then extractAnswerFallbackText (js ''The answer is 42'')
            else apology),
           parseFinalModelOutput example_final_parse complete_answer_text, 1)"
    using repairing [where raw = "js ''The answer is 42''"] parse_examples(1) repairs
    by (metis GeminiTextResult.select_convs(1))
  then have b: "answer_stage example_final_parse repairing_backend ?m (js ''The answer is 42'') 0
     = (js ''42 points'', ?parsed, 1)"
    unfolding parsed by simp
  have failed: "parseFinalModelOutput example_final_parse (js ''The answer is 42'') = parse_failed"
    by (simp add: parseFinalModelOutput_def extractJsonObject_def js_def fence_def prefix_ci_def
          toUpperAscii_def isWhiteSpace_def slice_def)
  have c1: "fst (answer_stage example_final_parse failing_backend ?m (js ''The answer is 42'') 0)
      = (if extractAnswerFallbackText (js ''The answer is 42'') \<noteq> []
         then extractAnswerFallbackText (js ''The answer is 42'') else apology)"
    using failing [where raw = "js ''The answer is 42''"] parse_examples(1) fails by blast
  have c2: "snd (answer_stage example_final_parse failing_backend ?m (js ''The answer is 42'') 0)
      = (parseFinalModelOutput example_final_parse (js ''The answer is 42''), 1)"
    using failing [where raw = "js ''The answer is 42''"] parse_examples(1) fails by blast
  from c1 have c1': "fst (answer_stage example_final_parse failing_backend ?m
      (js ''The answer is 42'') 0) = js ''The answer is 42''"
    unfolding fallback_examples by (simp add: js_def)
  have c: "answer_stage example_final_parse failing_backend ?m (js ''The answer is 42'') 0
     = (js ''The answer is 42'', parse_failed, 1)"
    using c1' c2 unfolding failed by (simp add: prod_eq_iff)
  have d: "fst (answer_stage example_final_parse failing_backend ?m (js ''{}'') 0)
      = (if extractAnswerFallbackText (js ''{}'') \<noteq> []
         then extractAnswerFallbackText (js ''{}'') else apology)"
    using failing [where raw = "js ''{}''"] parse_examples(2) fails by blast
  have e: "fst (answer_stage example_final_parse failing_backend ?m truncated_answer_text 0)
      = (if extractAnswerFallbackText truncated_answer_text \<noteq> []
         then extractAnswerFallbackText truncated_answer_text else apology)"
    using failing [where raw = truncated_answer_text] parse_examples(3) fails by blast
  from d have d': "fst (answer_stage example_final_parse failing_backend ?m (js ''{}'') 0) = apology"
    unfolding fallback_examples by simp
  from e have e': "fst (answer_stage example_final_parse failing_backend ?m truncated_answer_text 0)
      = js ''Hi '' @ quoted (js ''you'') @ [newline] @ js ''there''"
    unfolding fallback_examples by (simp add: js_def)
  have f: "response_stream example_final_parse example_stringify String_of_integer
       repairing_backend ?m [] (js ''The answer is 42'') 0
     = (Inr [js ''42 points'', metadataMarker example_stringify []], 1)"
    using repairing [where raw = "js ''The answer is 42''"]
    unfolding b by (simp add: post_sourceFragments_def example_fragments complete_answer_examples)
  have g: "response_stream example_final_parse example_stringify String_of_integer
       failing_backend ?m [] (js ''The answer is 42'') 0
     = (Inr [js ''The answer is 42'', metadataMarker example_stringify []], 1)"
    using failing [where raw = "js ''The answer is 42''"]
    unfolding c by (simp add: post_sourceFragments_def parse_failed_def example_fragments
        complete_answer_examples)
  from a b c d' e' f g show ?thesis by (intro conjI)
qed

end
